theory Spec2Isabelle
  imports Complex_Main "HOL-Library.AList" "HOL-Library.Char_ord" "HOL-Library.List_Lexorder"
    "HOL-Library.Sublist"
begin

section \<open>Benford analysis of a spreadsheet package: the embedding\<close>

text \<open>
  The theory embeds \<^verbatim>\<open>scripts/benford_analysis.py\<close>. Conventions:
  \<^item> Python \<^verbatim>\<open>int\<close> is \<^typ>\<open>int\<close>;
  \<^item> a Python \<^verbatim>\<open>str\<close> is a \<^typ>\<open>string\<close>, the bytes of its UTF-8 encoding. Equality,
    concatenation, the order used by \<^verbatim>\<open>sorted\<close>, \<^verbatim>\<open>startswith\<close>, \<^verbatim>\<open>endswith\<close>,
    \<^verbatim>\<open>in\<close> with an ASCII pattern and the
    match of \<^verbatim>\<open>[A-Z]+\<close> are the same on the bytes as on the code points. The built-ins
    that depend on the Unicode character classes, \<^verbatim>\<open>int(s)\<close>, \<^verbatim>\<open>float(s)\<close>,
    \<^verbatim>\<open>s.strip()\<close> and \<^verbatim>\<open>s.lower()\<close>, and the printing \<^verbatim>\<open>str(x)\<close> of a float, are
    parameters of the model: the fields of a record \<open>builtins\<close> that every function
    calling one of them takes as its first argument. The theorems hold for every such
    record; the examples run on the instance \<open>py_builtins\<close>, defined at the end of the
    embedding;
  \<^item> a \<^verbatim>\<open>dict\<close> is an association list with distinct keys kept in insertion order,
    written with \<^const>\<open>AList.update\<close> (replace in place, else append) and
    \<^const>\<open>map_of\<close>;
  \<^item> a Python \<^verbatim>\<open>float\<close> is a value of \<open>pyfloat\<close>: a finite value, taken as a real
    number, or one of the special values infinity and NaN, which the code can receive from
    \<^verbatim>\<open>float("inf")\<close> and \<^verbatim>\<open>float("nan")\<close>. Arithmetic on finite values is exact (no
    rounding), with one exception that changes the control flow: the float power
    \<^verbatim>\<open>10**exponent\<close> underflows to \<^verbatim>\<open>0.0\<close> for exponents below -323, and the division by it
    raises;
  \<^item> every \<^verbatim>\<open>raise\<close> is a value \<open>Inl e\<close> of a sum type;
  \<^item> a package is an archive that has been opened and whose parts can be read. The XML
    parser is outside the embedding: a part is given by what \<^verbatim>\<open>ET.fromstring\<close> and
    \<^verbatim>\<open>findall\<close> make of it, or by the fact that \<^verbatim>\<open>ET.fromstring\<close> raises
    \<^verbatim>\<open>ParseError\<close>.
\<close>

subsection \<open>Python values and built-ins\<close>

datatype py_error =
  ValueError string | OverflowError string | ZeroDivisionError string | ParseError

datatype pyfloat = Finite real | PosInf | NegInf | NaN

text \<open>The type \<^verbatim>\<open>Any\<close> of a decoded cell: \<^verbatim>\<open>None\<close>, a float or a string.\<close>

datatype cell_value = Empty | Number pyfloat | Text string

text \<open>
  The built-ins taken as parameters: \<^verbatim>\<open>int(s)\<close> and \<^verbatim>\<open>float(s)\<close> of a string (\<open>None\<close>
  when the built-in raises \<^verbatim>\<open>ValueError\<close>), \<^verbatim>\<open>str(x)\<close> of a float, \<^verbatim>\<open>s.strip()\<close> and
  \<^verbatim>\<open>s.lower()\<close>.
\<close>

record builtins =
  b_int :: "string \<Rightarrow> int option"
  b_float :: "string \<Rightarrow> pyfloat option"
  b_str :: "pyfloat \<Rightarrow> string"
  b_strip :: "string \<Rightarrow> string"
  b_lower :: "string \<Rightarrow> string"

text \<open>The \<^verbatim>\<open>ValueError\<close> that \<^verbatim>\<open>int(s)\<close> raises. Its message, which quotes the text or
  reports the digit limit, is not modelled.\<close>

definition int_value_error :: py_error where
  "int_value_error = ValueError ''invalid literal for int() with base 10''"

definition py_ord :: "char \<Rightarrow> int" where
  "py_ord c = int (of_char c)"

definition is_upper_AZ :: "char \<Rightarrow> bool" where
  "is_upper_AZ c = (py_ord CHR ''A'' \<le> py_ord c \<and> py_ord c \<le> py_ord CHR ''Z'')"

text \<open>\<^verbatim>\<open>sub in s\<close> on strings.\<close>

fun contains :: "string \<Rightarrow> string \<Rightarrow> bool" where
  "contains sub [] = (sub = [])"
| "contains sub (c # s) = (prefix sub (c # s) \<or> contains sub s)"

text \<open>\<^verbatim>\<open>str(n)\<close> for a non-negative integer.\<close>

fun str_nat :: "nat \<Rightarrow> string" where
  "str_nat n = (if n < 10 then [''0123456789'' ! n]
                else str_nat (n div 10) @ [''0123456789'' ! (n mod 10)])"

declare str_nat.simps [simp del]

definition str_int :: "int \<Rightarrow> string" where
  "str_int i = (if i < 0 then CHR ''-'' # str_nat (nat (- i)) else str_nat (nat i))"

text \<open>\<^verbatim>\<open>xs[i]\<close>: a negative index counts from the end; \<open>None\<close> is \<^verbatim>\<open>IndexError\<close>.\<close>

definition py_index :: "'a list \<Rightarrow> int \<Rightarrow> 'a option" where
  "py_index xs i =
     (if 0 \<le> i \<and> i < int (length xs) then Some (xs ! nat i)
      else if i < 0 \<and> - int (length xs) \<le> i then Some (xs ! nat (int (length xs) + i))
      else None)"

subsection \<open>CellRef resolver\<close>

text \<open>\<^verbatim>\<open>re.match(r"([A-Z]+)", cell_ref)\<close>: the longest leading run of the letters A..Z,
  no match when the run is empty.\<close>

definition match_letters :: "string \<Rightarrow> string option" where
  "match_letters cell_ref =
     (case takeWhile is_upper_AZ cell_ref of [] \<Rightarrow> None | c # cs \<Rightarrow> Some (c # cs))"

definition column_index_from_ref :: "string \<Rightarrow> int" where
  "column_index_from_ref cell_ref =
     (case match_letters cell_ref of
        None \<Rightarrow> 0
      | Some letters \<Rightarrow> foldl (\<lambda>result char. result * 26 + (py_ord char - py_ord CHR ''A'' + 1)) 0 letters)"

text \<open>The reading of the specification: the letter run as a positional base-26 numeral
  whose digits are A = 1, ..., Z = 26.\<close>

definition letter_value :: "char \<Rightarrow> int" where
  "letter_value c = py_ord c - 64"

definition base26_value :: "string \<Rightarrow> int" where
  "base26_value ls = (\<Sum>i < length ls. letter_value (ls ! i) * 26 ^ (length ls - 1 - i))"

subsection \<open>Shared strings and the cell value decoder\<close>

text \<open>
  A cell element \<^verbatim>\<open><c r=".." t=".."><is><t>..</t></is><v>..</v></c>\<close>. \<open>c_is\<close> is \<open>None\<close>
  when there is no \<^verbatim>\<open>is\<close> child, \<open>Some None\<close> when that child holds no \<^verbatim>\<open>t\<close> element, and
  \<open>Some (Some txt)\<close> with the \<^verbatim>\<open>.text\<close> of its first \<^verbatim>\<open>t\<close> element otherwise; \<open>c_v\<close> is
  \<open>None\<close> when there is no \<^verbatim>\<open>v\<close> child and \<open>Some txt\<close> with its \<^verbatim>\<open>.text\<close> otherwise. A
  \<^verbatim>\<open>.text\<close> is \<open>None\<close> for an element without text.
\<close>

record cell_el =
  c_r :: "string option"
  c_t :: "string option"
  c_is :: "string option option option"
  c_v :: "string option option"

record row_el =
  row_r :: "string option"
  row_c :: "cell_el list"

text \<open>
  A package: the names of the archive in their stored order, and what the XML parser makes of
  a part. \<open>part_si\<close> and \<open>part_rows\<close> are \<open>None\<close> when \<^verbatim>\<open>ET.fromstring\<close> raises
  \<^verbatim>\<open>ParseError\<close> on the part. Otherwise \<open>part_si\<close> gives, for each \<^verbatim>\<open>si\<close> child of the
  root, the \<^verbatim>\<open>.text\<close> of its \<^verbatim>\<open>t\<close> descendants, and \<open>part_rows\<close> gives the \<^verbatim>\<open>row\<close>
  elements in document order.
\<close>

record package =
  namelist :: "string list"
  part_si :: "string \<Rightarrow> string option list list option"
  part_rows :: "string \<Rightarrow> row_el list option"

record SheetData =
  headers :: "string list"
  rows :: "cell_value list list"

definition read_shared_strings :: "package \<Rightarrow> py_error + string list" where
  "read_shared_strings zip_file =
     (if ''xl/sharedStrings.xml'' \<in> set (namelist zip_file) then
        (case part_si zip_file ''xl/sharedStrings.xml'' of
           None \<Rightarrow> Inl ParseError
         | Some sis \<Rightarrow>
             Inr (map (\<lambda>si. concat (map (\<lambda>node_text. case node_text of None \<Rightarrow> [] | Some t \<Rightarrow> t) si))
                    sis))
      else Inr [])"

definition parse_cell_value :: "builtins \<Rightarrow> cell_el \<Rightarrow> string list \<Rightarrow> cell_value" where
  "parse_cell_value b cell shared_strings =
     (if c_t cell = Some ''inlineStr'' then
        (case c_is cell of
           None \<Rightarrow> Empty
         | Some None \<Rightarrow> Empty
         | Some (Some None) \<Rightarrow> Empty
         | Some (Some (Some txt)) \<Rightarrow> Text txt)
      else
        (case c_v cell of
           None \<Rightarrow> Empty
         | Some None \<Rightarrow> Empty
         | Some (Some raw) \<Rightarrow>
             if c_t cell = Some ''s'' then
               (case b_int b raw of
                  None \<Rightarrow> Empty
                | Some i \<Rightarrow> (case py_index shared_strings i of None \<Rightarrow> Empty | Some str \<Rightarrow> Text str))
             else if c_t cell = None \<or> c_t cell = Some ''n'' then
               (case b_float b raw of Some x \<Rightarrow> Number x | None \<Rightarrow> Text raw)
             else Text raw))"

subsection \<open>Worksheet extractor\<close>

text \<open>The inner loop over the cells of one row: the row's dict and the running \<^verbatim>\<open>max_col\<close>.\<close>

fun scan_cells ::
  "builtins \<Rightarrow> string list \<Rightarrow> cell_el list \<Rightarrow>
   (int \<times> cell_value) list \<times> int \<Rightarrow> (int \<times> cell_value) list \<times> int" where
  "scan_cells b shared_strings [] (row_cells, max_col) = (row_cells, max_col)"
| "scan_cells b shared_strings (cell # cells) (row_cells, max_col) =
     (let ref = (case c_r cell of None \<Rightarrow> [] | Some r \<Rightarrow> r);
          col_idx = column_index_from_ref ref
      in if col_idx = 0 then scan_cells b shared_strings cells (row_cells, max_col)
         else scan_cells b shared_strings cells
                (AList.update col_idx (parse_cell_value b cell shared_strings) row_cells,
                 max max_col col_idx))"

text \<open>\<^verbatim>\<open>int(row.attrib.get("r", "0"))\<close>; \<open>None\<close> when the built-in raises.\<close>

definition row_index :: "builtins \<Rightarrow> row_el \<Rightarrow> int option" where
  "row_index b row = b_int b (case row_r row of None \<Rightarrow> ''0'' | Some r \<Rightarrow> r)"

text \<open>The outer loop over the row elements. The \<^verbatim>\<open>ValueError\<close> of \<^verbatim>\<open>int\<close> ends the
  scan.\<close>

fun scan_rows ::
  "builtins \<Rightarrow> string list \<Rightarrow> row_el list \<Rightarrow>
   (int \<times> (int \<times> cell_value) list) list \<times> int \<Rightarrow>
   py_error + (int \<times> (int \<times> cell_value) list) list \<times> int" where
  "scan_rows b shared_strings [] (rws, max_col) = Inr (rws, max_col)"
| "scan_rows b shared_strings (row # rest) (rws, max_col) =
     (case row_index b row of
        None \<Rightarrow> Inl int_value_error
      | Some row_idx \<Rightarrow>
          (case scan_cells b shared_strings (row_c row) ([], max_col) of
             (row_cells, max_col') \<Rightarrow>
               scan_rows b shared_strings rest
                 (if row_idx \<noteq> 0 then AList.update row_idx row_cells rws else rws, max_col')))"

text \<open>\<^verbatim>\<open>d.get(k)\<close> on a dict of cell values: \<^verbatim>\<open>None\<close> for a missing key.\<close>

definition dict_get :: "(int \<times> cell_value) list \<Rightarrow> int \<Rightarrow> cell_value" where
  "dict_get d k = (case map_of d k of None \<Rightarrow> Empty | Some v \<Rightarrow> v)"

text \<open>Truth value of a decoded cell: \<^verbatim>\<open>None\<close>, \<^verbatim>\<open>0.0\<close> and \<^verbatim>\<open>""\<close> are false.\<close>

fun truthy :: "cell_value \<Rightarrow> bool" where
  "truthy Empty = False"
| "truthy (Number x) = (x \<noteq> Finite 0)"
| "truthy (Text t) = (t \<noteq> [])"

fun py_str :: "builtins \<Rightarrow> cell_value \<Rightarrow> string" where
  "py_str b Empty = ''None''"
| "py_str b (Number x) = b_str b x"
| "py_str b (Text t) = t"

definition header_name :: "builtins \<Rightarrow> (int \<times> cell_value) list \<Rightarrow> int \<Rightarrow> string" where
  "header_name b row1 col_idx =
     b_strip b (py_str b (if truthy (dict_get row1 col_idx) then dict_get row1 col_idx
                          else Text (''Column'' @ str_int col_idx)))"

text \<open>\<^verbatim>\<open>rows[row_idx]\<close> for a key taken from \<^verbatim>\<open>rows\<close> itself (no \<^verbatim>\<open>KeyError\<close> there).\<close>

definition row_at :: "(int \<times> (int \<times> cell_value) list) list \<Rightarrow> int \<Rightarrow> (int \<times> cell_value) list" where
  "row_at rws row_idx = (case map_of rws row_idx of None \<Rightarrow> [] | Some row_cells \<Rightarrow> row_cells)"

definition sheet_names :: "package \<Rightarrow> string list" where
  "sheet_names zip_file =
     sort (filter (\<lambda>name. prefix ''xl/worksheets/sheet'' name \<and> suffix ''.xml'' name)
             (namelist zip_file))"

text \<open>
  The scan of the first worksheet in name order: the shared strings are read, the part
  \<^verbatim>\<open>sheet_names[0]\<close> is parsed, and its row elements are scanned. Either parse may raise
  \<^verbatim>\<open>ParseError\<close>.
\<close>

definition scan_sheet ::
  "builtins \<Rightarrow> package \<Rightarrow> py_error + (int \<times> (int \<times> cell_value) list) list \<times> int" where
  "scan_sheet b zip_file =
     (case read_shared_strings zip_file of
        Inl e \<Rightarrow> Inl e
      | Inr shared_strings \<Rightarrow>
          (case part_rows zip_file (hd (sheet_names zip_file)) of
             None \<Rightarrow> Inl ParseError
           | Some row_els \<Rightarrow> scan_rows b shared_strings row_els ([], 0)))"

definition load_first_sheet :: "builtins \<Rightarrow> package \<Rightarrow> py_error + SheetData" where
  "load_first_sheet b zip_file =
     (if sheet_names zip_file = [] then Inl (ValueError ''No worksheet found in the Excel file.'')
      else
        (case scan_sheet b zip_file of
           Inl e \<Rightarrow> Inl e
         | Inr (rws, max_col) \<Rightarrow>
             (case map_of rws 1 of
                None \<Rightarrow> Inl (ValueError ''Unable to locate header row.'')
              | Some row1 \<Rightarrow>
                  Inr \<lparr>headers = map (header_name b row1) [1..max_col],
                       rows = map (\<lambda>row_idx. map (dict_get (row_at rws row_idx))
                                                  [1..max_col])
                                (sort (filter (\<lambda>idx. idx \<noteq> 1) (map fst rws)))\<rparr>)))"

text \<open>
  The conditions of the specification on a package: the parts that the extractor parses, the
  shared-string part when the archive has one and the first worksheet part, are well-formed
  XML; and the row elements of the first worksheet (none when it is not well-formed).
\<close>

definition parts_well_formed :: "package \<Rightarrow> bool" where
  "parts_well_formed zip_file =
     ((''xl/sharedStrings.xml'' \<in> set (namelist zip_file) \<longrightarrow>
         part_si zip_file ''xl/sharedStrings.xml'' \<noteq> None)
      \<and> part_rows zip_file (hd (sheet_names zip_file)) \<noteq> None)"

definition first_sheet_rows :: "package \<Rightarrow> row_el list" where
  "first_sheet_rows zip_file =
     (case part_rows zip_file (hd (sheet_names zip_file)) of None \<Rightarrow> [] | Some row_els \<Rightarrow> row_els)"

subsection \<open>Column classifier\<close>

text \<open>\<^verbatim>\<open>parse_numeric\<close>: \<^verbatim>\<open>None\<close> and \<^verbatim>\<open>""\<close> give \<^verbatim>\<open>None\<close>, a float is itself, any other
  text is converted after its commas are removed.\<close>

fun parse_numeric :: "builtins \<Rightarrow> cell_value \<Rightarrow> pyfloat option" where
  "parse_numeric b Empty = None"
| "parse_numeric b (Number x) = Some x"
| "parse_numeric b (Text t) = (if t = [] then None else b_float b (filter (\<lambda>c. c \<noteq> CHR '','') t))"

text \<open>\<^verbatim>\<open>round(x)\<close> of a finite float: the nearest integer, the even one at a tie.\<close>

definition py_round :: "real \<Rightarrow> int" where
  "py_round x =
     (if x - of_int \<lfloor>x\<rfloor> < 1 / 2 then \<lfloor>x\<rfloor>
      else if 1 / 2 < x - of_int \<lfloor>x\<rfloor> then \<lfloor>x\<rfloor> + 1
      else if even \<lfloor>x\<rfloor> then \<lfloor>x\<rfloor> else \<lfloor>x\<rfloor> + 1)"

text \<open>The test of the loop body of \<^verbatim>\<open>is_date_like_column\<close>; comparisons with infinity and NaN
  are false before \<^verbatim>\<open>round\<close> is reached.\<close>

fun date_like_value :: "pyfloat \<Rightarrow> bool" where
  "date_like_value (Finite x) =
     (20000 \<le> x \<and> x \<le> 60000 \<and> \<bar>x - of_int (py_round x)\<bar> < 1 / 100)"
| "date_like_value PosInf = False"
| "date_like_value NegInf = False"
| "date_like_value NaN = False"

definition is_date_like_column :: "builtins \<Rightarrow> string \<Rightarrow> pyfloat list \<Rightarrow> bool" where
  "is_date_like_column b header values =
     (if contains ''date'' (b_lower b header) then True
      else if values = [] then False
      else
        (let date_like = foldl (\<lambda>n v. if date_like_value v then n + 1 else n) (0::int) values
         in 8 / 10 \<le> real_of_int date_like / real (length values)))"

text \<open>The two nested loops of \<^verbatim>\<open>numeric_columns\<close> over the dict \<^verbatim>\<open>columns\<close>;
  \<^verbatim>\<open>columns[header].append(x)\<close> is \<^const>\<open>AList.map_entry\<close>.\<close>

definition append_cell ::
  "builtins \<Rightarrow> (string \<times> pyfloat list) list \<Rightarrow> string \<times> cell_value \<Rightarrow>
   (string \<times> pyfloat list) list" where
  "append_cell b columns hv =
     (case parse_numeric b (snd hv) of
        None \<Rightarrow> columns
      | Some numeric_value \<Rightarrow> AList.map_entry (fst hv) (\<lambda>vs. vs @ [numeric_value]) columns)"

definition numeric_columns ::
  "builtins \<Rightarrow> SheetData \<Rightarrow> (string \<times> pyfloat list) list" where
  "numeric_columns b sheet =
     (let columns0 = foldl (\<lambda>columns header. AList.update header [] columns) [] (headers sheet);
          columns = foldl (\<lambda>columns row. foldl (append_cell b) columns (zip (headers sheet) row))
                      columns0 (rows sheet)
      in filter (\<lambda>(header, values). values \<noteq> [] \<and> \<not> is_date_like_column b header values) columns)"

text \<open>
  The reading of the specification. The numeric values of a header: row by row, and within a
  row column by column, the parsed value of every cell that stands under a column with that
  header and parses. A value is date-like when it lies in [20000, 60000] and is less than
  0.01 away from some integer; a list is mostly date-like when at least four fifths of its
  values are.
\<close>

definition column_values :: "builtins \<Rightarrow> SheetData \<Rightarrow> string \<Rightarrow> pyfloat list" where
  "column_values b sheet h =
     concat (map (\<lambda>row.
        concat (map (\<lambda>i. if headers sheet ! i = h
                         then (case parse_numeric b (row ! i) of None \<Rightarrow> [] | Some x \<Rightarrow> [x])
                         else [])
                  [0..<min (length (headers sheet)) (length row)]))
       (rows sheet))"

definition serial_date_value :: "pyfloat \<Rightarrow> bool" where
  "serial_date_value v =
     (\<exists>x. v = Finite x \<and> 20000 \<le> x \<and> x \<le> 60000 \<and> (\<exists>k::int. \<bar>x - of_int k\<bar> < 1 / 100))"

definition mostly_serial_dates :: "pyfloat list \<Rightarrow> bool" where
  "mostly_serial_dates vs = (4 * length vs \<le> 5 * length (filter serial_date_value vs))"

text \<open>The numeric values of the column at position \<open>i\<close> alone, row by row.\<close>

definition own_values :: "builtins \<Rightarrow> SheetData \<Rightarrow> nat \<Rightarrow> pyfloat list" where
  "own_values b sheet i =
     concat (map (\<lambda>row. if i < length row
                         then (case parse_numeric b (row ! i) of None \<Rightarrow> [] | Some x \<Rightarrow> [x])
                         else [])
       (rows sheet))"

subsection \<open>Benford engine\<close>

text \<open>\<^verbatim>\<open>EXPECTED_DIGITS[digit]\<close>.\<close>

definition EXPECTED_DIGITS :: "int \<Rightarrow> real" where
  "EXPECTED_DIGITS digit = log 10 (1 + 1 / of_int digit)"

text \<open>The float operations of \<^verbatim>\<open>leading_digits\<close> with the errors they raise.\<close>

fun py_abs :: "pyfloat \<Rightarrow> pyfloat" where
  "py_abs (Finite x) = Finite \<bar>x\<bar>"
| "py_abs PosInf = PosInf"
| "py_abs NegInf = PosInf"
| "py_abs NaN = NaN"

fun math_log10 :: "pyfloat \<Rightarrow> py_error + pyfloat" where
  "math_log10 (Finite x) = (if 0 < x then Inr (Finite (log 10 x)) else Inl (ValueError ''math domain error''))"
| "math_log10 PosInf = Inr PosInf"
| "math_log10 NegInf = Inl (ValueError ''math domain error'')"
| "math_log10 NaN = Inr NaN"

fun math_floor :: "pyfloat \<Rightarrow> py_error + int" where
  "math_floor (Finite x) = Inr \<lfloor>x\<rfloor>"
| "math_floor PosInf = Inl (OverflowError ''cannot convert float infinity to integer'')"
| "math_floor NegInf = Inl (OverflowError ''cannot convert float infinity to integer'')"
| "math_floor NaN = Inl (ValueError ''cannot convert float NaN to integer'')"

text \<open>
  \<^verbatim>\<open>value / (10**exponent)\<close>. For an exponent of 0 or more \<^verbatim>\<open>10**exponent\<close> is an \<^verbatim>\<open>int\<close>,
  which the division converts to a float: \<^verbatim>\<open>OverflowError\<close> above \<open>10^308\<close>. For a
  negative exponent it is a float power, which underflows to \<^verbatim>\<open>0.0\<close> below \<open>10^-323\<close>:
  the division raises \<^verbatim>\<open>ZeroDivisionError\<close>.
\<close>

definition div_pow10 :: "pyfloat \<Rightarrow> int \<Rightarrow> py_error + pyfloat" where
  "div_pow10 v exponent =
     (if 308 < exponent then Inl (OverflowError ''int too large to convert to float'')
      else if exponent < - 323 then Inl (ZeroDivisionError ''float division by zero'')
      else Inr (case v of
                  Finite x \<Rightarrow> Finite (x / 10 powi exponent)
                | PosInf \<Rightarrow> PosInf
                | NegInf \<Rightarrow> NegInf
                | NaN \<Rightarrow> NaN))"

text \<open>\<^verbatim>\<open>int(x)\<close> of a float: truncation towards zero.\<close>

fun int_of_float :: "pyfloat \<Rightarrow> py_error + int" where
  "int_of_float (Finite x) = Inr (if 0 \<le> x then \<lfloor>x\<rfloor> else \<lceil>x\<rceil>)"
| "int_of_float PosInf = Inl (OverflowError ''cannot convert float infinity to integer'')"
| "int_of_float NegInf = Inl (OverflowError ''cannot convert float infinity to integer'')"
| "int_of_float NaN = Inl (ValueError ''cannot convert float NaN to integer'')"

fun leading_digits_loop :: "int list \<Rightarrow> pyfloat list \<Rightarrow> py_error + int list" where
  "leading_digits_loop digits [] = Inr digits"
| "leading_digits_loop digits (v # values) =
     (if v = Finite 0 then leading_digits_loop digits values
      else
        (case math_log10 (py_abs v) of
           Inl e \<Rightarrow> Inl e
         | Inr l \<Rightarrow>
             (case math_floor l of
                Inl e \<Rightarrow> Inl e
              | Inr exponent \<Rightarrow>
                  (case div_pow10 (py_abs v) exponent of
                     Inl e \<Rightarrow> Inl e
                   | Inr q \<Rightarrow>
                       (case int_of_float q of
                          Inl e \<Rightarrow> Inl e
                        | Inr leading \<Rightarrow>
                            leading_digits_loop
                              (if 1 \<le> leading \<and> leading \<le> 9 then digits @ [leading] else digits)
                              values)))))"

definition leading_digits :: "pyfloat list \<Rightarrow> py_error + int list" where
  "leading_digits values = leading_digits_loop [] values"

record digit_row =
  dr_column :: string
  dr_digit :: int
  dr_count :: int
  dr_observed :: real
  dr_expected :: real
  dr_deviation :: real

text \<open>\<^verbatim>\<open>counts[digit]\<close> is \<^verbatim>\<open>digits.count(digit)\<close>, \<^verbatim>\<open>total\<close> the sum of the nine counts.\<close>

definition digit_count :: "int list \<Rightarrow> int \<Rightarrow> int" where
  "digit_count digits digit = int (count_list digits digit)"

text \<open>\<^verbatim>\<open>a / c\<close> on two \<^verbatim>\<open>int\<close>s: the quotient as a float, \<^verbatim>\<open>ZeroDivisionError\<close> for a
  zero divisor.\<close>

definition int_truediv :: "int \<Rightarrow> int \<Rightarrow> py_error + real" where
  "int_truediv a c =
     (if c = 0 then Inl (ZeroDivisionError ''division by zero'') else Inr (of_int a / of_int c))"

text \<open>The loop of \<^verbatim>\<open>benford_for_column\<close> over the digits, with the rows built so far.\<close>

fun histogram_loop ::
  "int list \<Rightarrow> string \<Rightarrow> int \<Rightarrow> digit_row list \<Rightarrow> int list \<Rightarrow> py_error + digit_row list" where
  "histogram_loop digits label tot rws [] = Inr rws"
| "histogram_loop digits label tot rws (digit # rest) =
     (case (if tot \<noteq> 0 then int_truediv (digit_count digits digit) tot else Inr 0) of
        Inl e \<Rightarrow> Inl e
      | Inr observed \<Rightarrow>
          (let expected = EXPECTED_DIGITS digit in
           histogram_loop digits label tot
             (rws @ [\<lparr>dr_column = label, dr_digit = digit, dr_count = digit_count digits digit,
                      dr_observed = observed, dr_expected = expected,
                      dr_deviation = observed - expected\<rparr>])
             rest))"

definition benford_for_column :: "pyfloat list \<Rightarrow> string \<Rightarrow> py_error + digit_row list" where
  "benford_for_column values label =
     (case leading_digits values of
        Inl e \<Rightarrow> Inl e
      | Inr digits \<Rightarrow>
          histogram_loop digits label (sum_list (map (digit_count digits) [1..9])) [] [1..9])"

record summary_row =
  sr_column :: string
  sr_total_values :: int
  sr_mad :: real
  sr_max_abs_deviation :: real
  sr_top_deviation_digit :: int

text \<open>\<^verbatim>\<open>max(xs, key=f)\<close>: the first element whose key is largest; \<^verbatim>\<open>ValueError\<close> on an
  empty list.\<close>

definition py_max_key :: "('a \<Rightarrow> real) \<Rightarrow> 'a list \<Rightarrow> py_error + 'a" where
  "py_max_key f xs =
     (case xs of
        [] \<Rightarrow> Inl (ValueError ''max() arg is an empty sequence'')
      | x # rest \<Rightarrow> Inr (foldl (\<lambda>best y. if f best < f y then y else best) x rest))"

fun detail_loop :: "digit_row list \<Rightarrow> (string \<times> pyfloat list) list \<Rightarrow> py_error + digit_row list" where
  "detail_loop digit_detail [] = Inr digit_detail"
| "detail_loop digit_detail ((label, values) # columns) =
     (case benford_for_column values label of
        Inl e \<Rightarrow> Inl e
      | Inr rws \<Rightarrow> detail_loop (digit_detail @ rws) columns)"

definition summary_of :: "digit_row list \<Rightarrow> string \<Rightarrow> py_error + summary_row" where
  "summary_of digit_detail label =
     (let column_rows = filter (\<lambda>row. dr_column row = label) digit_detail;
          deviations = map (\<lambda>row. \<bar>dr_deviation row\<bar>) column_rows;
          total_values = sum_list (map dr_count column_rows)
      in case py_max_key (\<lambda>row. \<bar>dr_deviation row\<bar>) column_rows of
           Inl e \<Rightarrow> Inl e
         | Inr max_dev_row \<Rightarrow>
             Inr \<lparr>sr_column = label, sr_total_values = total_values,
                  sr_mad = (if deviations \<noteq> [] then sum_list deviations / real (length deviations) else 0),
                  sr_max_abs_deviation =
                    (if deviations \<noteq> [] then foldl max (hd deviations) (tl deviations) else 0),
                  sr_top_deviation_digit = dr_digit max_dev_row\<rparr>)"

fun summary_loop :: "digit_row list \<Rightarrow> summary_row list \<Rightarrow> string list \<Rightarrow> py_error + summary_row list" where
  "summary_loop digit_detail summary [] = Inr summary"
| "summary_loop digit_detail summary (label # labels) =
     (case summary_of digit_detail label of
        Inl e \<Rightarrow> Inl e
      | Inr row \<Rightarrow> summary_loop digit_detail (summary @ [row]) labels)"

text \<open>\<^verbatim>\<open>summary.sort(key=..., reverse=True)\<close> is a stable sort by descending key.\<close>

definition summarize_benford ::
  "(string \<times> pyfloat list) list \<Rightarrow> py_error + summary_row list \<times> digit_row list" where
  "summarize_benford columns =
     (case detail_loop [] columns of
        Inl e \<Rightarrow> Inl e
      | Inr digit_detail \<Rightarrow>
          (case summary_loop digit_detail [] (map fst columns) of
             Inl e \<Rightarrow> Inl e
           | Inr summary \<Rightarrow> Inr (sort_key (\<lambda>row. - sr_mad row) summary, digit_detail)))"


text \<open>
  The reading of the specification for one column with the digit population \<open>digits\<close>:
  the observed share of a digit, and its absolute deviation from the expected share.
\<close>

definition observed_share :: "int list \<Rightarrow> int \<Rightarrow> real" where
  "observed_share digits d =
     (if (\<Sum>k \<in> {1..9}. count_list digits k) = 0 then 0
      else real (count_list digits d) / real (\<Sum>k \<in> {1..9}. count_list digits k))"

definition abs_deviation :: "int list \<Rightarrow> int \<Rightarrow> real" where
  "abs_deviation digits d = \<bar>observed_share digits d - log 10 (1 + 1 / of_int d)\<bar>"

text \<open>The nine rows of a column with the digit population \<open>digits\<close>, written without the
  loop and with the guarded quotient as a real number.\<close>

definition benford_rows :: "int list \<Rightarrow> string \<Rightarrow> digit_row list" where
  "benford_rows digits label =
     (let total = sum_list (map (digit_count digits) [1..9]) in
      map (\<lambda>digit.
             (let observed = (if total \<noteq> 0 then real_of_int (digit_count digits digit) / real_of_int total
                              else 0);
                  expected = EXPECTED_DIGITS digit
              in \<lparr>dr_column = label, dr_digit = digit, dr_count = digit_count digits digit,
                   dr_observed = observed, dr_expected = expected,
                   dr_deviation = observed - expected\<rparr>))
          [1..9])"

text \<open>
  The reading of the specification for a finite non-zero value: the exponent
  \<open>floor(log10 |x|)\<close> and the leading digit \<open>floor(|x| / 10^exponent)\<close>. The values for
  which \<^verbatim>\<open>value / (10**exponent)\<close> is defined are zero, which is skipped, and those of a
  magnitude from \<open>10^-323\<close> up to, and excluding, \<open>10^309\<close>; every float of the normal range
  is one of them.
\<close>

definition leading_digit_of :: "real \<Rightarrow> int" where
  "leading_digit_of x = \<lfloor>\<bar>x\<bar> / 10 powi \<lfloor>log 10 \<bar>x\<bar>\<rfloor>\<rfloor>"

definition retained_digits :: "real list \<Rightarrow> int list" where
  "retained_digits xs =
     filter (\<lambda>d. 1 \<le> d \<and> d \<le> 9) (map leading_digit_of (filter (\<lambda>x. x \<noteq> 0) xs))"

definition in_pow10_range :: "real \<Rightarrow> bool" where
  "in_pow10_range x = (x = 0 \<or> (10 powi (- 323) \<le> \<bar>x\<bar> \<and> \<bar>x\<bar> < 10 powi 309))"

text \<open>The smallest positive float, \<open>2^-1074\<close>, which Python writes \<^verbatim>\<open>5e-324\<close>.\<close>

definition smallest_float :: real where
  "smallest_float = 1 / 2 ^ 1074"

text \<open>The digit population of a column; it is used only where the extraction succeeds.\<close>

definition digits_of :: "pyfloat list \<Rightarrow> int list" where
  "digits_of values = (case leading_digits values of Inl e \<Rightarrow> [] | Inr digits \<Rightarrow> digits)"


subsection \<open>An instance of the built-ins\<close>

text \<open>
  The record \<open>py_builtins\<close> is used to run the functions on examples. Its fields agree
  with Python on ASCII text: \<open>py_int\<close> and \<open>py_float\<close> read a literal between blanks,
  \<open>strip\<close> and \<open>lower\<close> work on the ASCII whitespace and letters, \<open>py_float\<close> gives a
  decimal literal its exact value (Python rounds it to the nearest float, and to infinity or
  zero beyond the range of the floats), and \<open>py_float_str\<close> prints the special values and
  whole numbers.
\<close>

definition is_digit :: "char \<Rightarrow> bool" where
  "is_digit c = (py_ord CHR ''0'' \<le> py_ord c \<and> py_ord c \<le> py_ord CHR ''9'')"

text \<open>The ASCII whitespace of \<^verbatim>\<open>str.strip\<close>: tab to carriage return, the four separators
  0x1c..0x1f, and the space.\<close>

definition is_space :: "char \<Rightarrow> bool" where
  "is_space c = ((9 \<le> py_ord c \<and> py_ord c \<le> 13) \<or> (28 \<le> py_ord c \<and> py_ord c \<le> 32))"

definition strip :: "string \<Rightarrow> string" where
  "strip s = rev (dropWhile is_space (rev (dropWhile is_space s)))"

text \<open>The ASCII whitespace that \<^verbatim>\<open>int\<close> and \<^verbatim>\<open>float\<close> skip around a literal: tab to carriage
  return, and the space.\<close>

definition is_blank :: "char \<Rightarrow> bool" where
  "is_blank c = ((9 \<le> py_ord c \<and> py_ord c \<le> 13) \<or> py_ord c = 32)"

definition trim :: "string \<Rightarrow> string" where
  "trim s = rev (dropWhile is_blank (rev (dropWhile is_blank s)))"

definition lower_char :: "char \<Rightarrow> char" where
  "lower_char c =
     (case map_of (zip ''ABCDEFGHIJKLMNOPQRSTUVWXYZ'' ''abcdefghijklmnopqrstuvwxyz'') c of
        None \<Rightarrow> c
      | Some l \<Rightarrow> l)"

definition lower :: "string \<Rightarrow> string" where
  "lower s = map lower_char s"

text \<open>
  The digit part of a numeric literal, \<^verbatim>\<open>digit (["_"] digit)*\<close>: the digits read from the
  front of the text (underscores left out) and the rest of the text. No digit is read when
  the text does not start with one.
\<close>

fun digit_part :: "string \<Rightarrow> string \<times> string" where
  "digit_part [] = ([], [])"
| "digit_part [c] = (if is_digit c then ([c], []) else ([], [c]))"
| "digit_part (c # u # s) =
     (if is_digit c then
        (if u = CHR ''_'' \<and> s \<noteq> [] \<and> is_digit (hd s)
         then (case digit_part s of (ds, r) \<Rightarrow> (c # ds, r))
         else (case digit_part (u # s) of (ds, r) \<Rightarrow> (c # ds, r)))
      else ([], c # u # s))"

definition digits_value :: "string \<Rightarrow> int" where
  "digits_value ds = foldl (\<lambda>acc c. acc * 10 + (py_ord c - py_ord CHR ''0'')) 0 ds"

text \<open>
  \<^verbatim>\<open>int(s)\<close>, base 10: the blanks around the literal are skipped, one sign is allowed, and
  the rest must be one digit part of at most 4300 digits.
\<close>

definition py_int :: "string \<Rightarrow> int option" where
  "py_int raw =
     (case trim raw of
        [] \<Rightarrow> None
      | c # s \<Rightarrow>
          (case digit_part (if c = CHR ''-'' \<or> c = CHR ''+'' then s else c # s) of
             (ds, r) \<Rightarrow>
               if ds = [] \<or> 4300 < length ds \<or> r \<noteq> [] then None
               else Some (if c = CHR ''-'' then - digits_value ds else digits_value ds)))"

text \<open>
  \<^verbatim>\<open>float(s)\<close>: the literals \<^verbatim>\<open>inf\<close>, \<^verbatim>\<open>infinity\<close> and \<^verbatim>\<open>nan\<close> in any case, and decimal
  literals \<^verbatim>\<open>[sign] digits [. digits] [e [sign] digits]\<close> with their exact value.
\<close>

definition scale10 :: "real \<Rightarrow> int \<Rightarrow> real" where
  "scale10 x k = (if 0 \<le> k then x * 10 ^ nat k else x / 10 ^ nat (- k))"

definition py_float_exponent :: "string \<Rightarrow> int option" where
  "py_float_exponent r =
     (case r of
        [] \<Rightarrow> Some 0
      | e # s \<Rightarrow>
          if e = CHR ''e'' \<or> e = CHR ''E'' then
            (case s of
               [] \<Rightarrow> None
             | c # t \<Rightarrow>
                 (case digit_part (if c = CHR ''-'' \<or> c = CHR ''+'' then t else c # t) of
                    (ds, r') \<Rightarrow>
                      if ds = [] \<or> r' \<noteq> [] then None
                      else Some (if c = CHR ''-'' then - digits_value ds else digits_value ds)))
          else None)"

definition py_float_decimal :: "string \<Rightarrow> real option" where
  "py_float_decimal body =
     (case digit_part body of
        (ip, r1) \<Rightarrow>
          (case (case r1 of [] \<Rightarrow> ([], [])
                 | d # r \<Rightarrow> if d = CHR ''.'' then digit_part r else ([], r1)) of
             (fp, r2) \<Rightarrow>
               if ip = [] \<and> fp = [] then None
               else (case py_float_exponent r2 of
                       None \<Rightarrow> None
                     | Some ex \<Rightarrow>
                         Some (scale10 (of_int (digits_value (ip @ fp))) (ex - int (length fp))))))"

definition py_float :: "string \<Rightarrow> pyfloat option" where
  "py_float raw =
     (case trim raw of
        [] \<Rightarrow> None
      | c # s \<Rightarrow>
          (let body = (if c = CHR ''-'' \<or> c = CHR ''+'' then s else c # s) in
           if lower body = ''inf'' \<or> lower body = ''infinity''
           then Some (if c = CHR ''-'' then NegInf else PosInf)
           else if lower body = ''nan'' then Some NaN
           else (case py_float_decimal body of
                   None \<Rightarrow> None
                 | Some x \<Rightarrow> Some (Finite (if c = CHR ''-'' then - x else x)))))"

text \<open>\<^verbatim>\<open>str(x)\<close> of a float: Python's text for the special values and for whole numbers of
  magnitude below \<open>10^16\<close>; it is not meant for other values.\<close>

fun py_float_str :: "pyfloat \<Rightarrow> string" where
  "py_float_str PosInf = ''inf''"
| "py_float_str NegInf = ''-inf''"
| "py_float_str NaN = ''nan''"
| "py_float_str (Finite x) = str_int \<lfloor>x\<rfloor> @ ''.0''"

definition py_builtins :: builtins where
  "py_builtins =
     \<lparr>b_int = py_int, b_float = py_float, b_str = py_float_str, b_strip = strip, b_lower = lower\<rparr>"

subsection \<open>Packages with one worksheet\<close>

text \<open>The package whose only part is \<^verbatim>\<open>xl/worksheets/sheet1.xml\<close> with the given row
  elements; it has no shared-string part.\<close>

definition no_si :: "string \<Rightarrow> string option list list option" where
  "no_si name = Some []"

definition rows_of_sheet1 :: "row_el list \<Rightarrow> string \<Rightarrow> row_el list option" where
  "rows_of_sheet1 rs name = (if name = ''xl/worksheets/sheet1.xml'' then Some rs else Some [])"

definition single_sheet_package :: "row_el list \<Rightarrow> package" where
  "single_sheet_package rs =
     \<lparr>namelist = [''xl/worksheets/sheet1.xml''], part_si = no_si, part_rows = rows_of_sheet1 rs\<rparr>"



text \<open>Cell elements: an inline string, a shared-string reference, an untyped value.\<close>

definition inline_cell :: "string \<Rightarrow> string \<Rightarrow> cell_el" where
  "inline_cell ref txt = \<lparr>c_r = Some ref, c_t = Some ''inlineStr'', c_is = Some (Some (Some txt)), c_v = None\<rparr>"

definition shared_cell :: "string \<Rightarrow> string \<Rightarrow> cell_el" where
  "shared_cell ref raw = \<lparr>c_r = Some ref, c_t = Some ''s'', c_is = None, c_v = Some (Some raw)\<rparr>"

definition value_cell :: "string \<Rightarrow> string \<Rightarrow> cell_el" where
  "value_cell ref raw = \<lparr>c_r = Some ref, c_t = None, c_is = None, c_v = Some (Some raw)\<rparr>"

text \<open>A header row: a text with blanks around it in column A, no cell in column B, a number
  in column C.\<close>

definition header_row_example :: "row_el list" where
  "header_row_example =
     [\<lparr>row_r = Some ''1'', row_c = [inline_cell ''A1'' '' Amount '', value_cell ''C1'' ''2024'']\<rparr>]"

text \<open>A sheet with two columns named Amount, a column named Date, a column of serial dates
  and a column of text.\<close>

definition classifier_example :: SheetData where
  "classifier_example =
     \<lparr>headers = [''Amount'', ''Date'', ''When'', ''Amount'', ''Note''],
      rows = [[Number (Finite 100), Number (Finite 20000), Number (Finite 20000), Text ''1,234.5'', Text ''x''],
              [Number (Finite 200), Number (Finite 20001), Number (Finite 45000), Empty, Text ''''],
              [Text ''3e2'', Text ''x'', Number (Finite 45001), Number (Finite 7), Empty]]\<rparr>"

text \<open>A sheet with two columns named X: the first holds amounts, the second serial dates.\<close>

definition repeated_header_example :: SheetData where
  "repeated_header_example =
     \<lparr>headers = [''X'', ''X''],
      rows = [[Number (Finite 100), Number (Finite 20000)],
              [Number (Finite 200), Number (Finite 20001)]]\<rparr>"

text \<open>A sheet with two columns named X: five of the six values are serial dates, two of the
  three values of the first column are.\<close>

definition merged_dates_example :: SheetData where
  "merged_dates_example =
     \<lparr>headers = [''X'', ''X''],
      rows = [[Number (Finite 5), Number (Finite 20000)],
              [Number (Finite 20001), Number (Finite 20002)],
              [Number (Finite 20003), Number (Finite 20004)]]\<rparr>"

text \<open>A sheet with the distinct headers Amount and When.\<close>

definition distinct_header_example :: SheetData where
  "distinct_header_example =
     \<lparr>headers = [''Amount'', ''When''],
      rows = [[Number (Finite 100), Number (Finite 20000)],
              [Number (Finite 200), Number (Finite 20001)],
              [Number (Finite 300), Text ''x'']]\<rparr>"

section \<open>Properties\<close>

subsection \<open>CellRef resolver\<close>

lemma foldl_base26:
  "foldl (\<lambda>result char. result * 26 + (py_ord char - py_ord CHR ''A'' + 1)) 0 ls = base26_value ls"
proof (induction ls rule: rev_induct)
  case Nil
  show ?case by (simp add: base26_value_def)
next
  case (snoc c ls)
  have shift: "(\<Sum>i < length ls. letter_value ((ls @ [c]) ! i) * 26 ^ (length ls - i))
      = (\<Sum>i < length ls. letter_value (ls ! i) * 26 ^ (length ls - 1 - i)) * 26"
    unfolding sum_distrib_right
  proof (rule sum.cong)
    fix i assume "i \<in> {..<length ls}"
    then have i: "i < length ls" by simp
    then have "length ls - i = Suc (length ls - 1 - i)" by arith
    with i show "letter_value ((ls @ [c]) ! i) * 26 ^ (length ls - i)
        = letter_value (ls ! i) * 26 ^ (length ls - 1 - i) * 26"
      by (simp add: nth_append)
  qed simp
  have "py_ord CHR ''A'' = 65" by (simp add: py_ord_def)
  then show ?case
    using snoc.IH shift by (simp add: base26_value_def letter_value_def)
qed

lemma foldl_letters_pos:
  "\<forall>c \<in> set ls. is_upper_AZ c \<Longrightarrow> ls \<noteq> [] \<Longrightarrow> 0 \<le> acc \<Longrightarrow>
   0 < foldl (\<lambda>result char. result * 26 + (py_ord char - py_ord CHR ''A'' + 1)) acc ls"
proof (induction ls arbitrary: acc)
  case Nil
  then show ?case by simp
next
  case (Cons c ls)
  have A: "py_ord CHR ''A'' = 65" by (simp add: py_ord_def)
  from Cons.prems have "65 \<le> py_ord c" by (simp add: is_upper_AZ_def A)
  with Cons.prems have step: "0 < acc * 26 + (py_ord c - py_ord CHR ''A'' + 1)"
    by (simp add: A add_pos_nonneg add.commute)
  show ?case
  proof (cases ls)
    case Nil
    with step show ?thesis by simp
  next
    case (Cons d ds)
    then have "ls \<noteq> []" by simp
    with Cons.IH [of "acc * 26 + (py_ord c - py_ord CHR ''A'' + 1)"] Cons.prems step
    show ?thesis by simp
  qed
qed

text \<open>
  Claim C9. For every cell address whose leading run of the letters A..Z is not empty,
  \<open>column_index_from_ref\<close> is the value of that run read as a base-26 numeral with the
  digits A = 1, ..., Z = 26 (which the left-to-right accumulation computes); a single letter
  gives its position 1..26, and AA, AB, AZ, BA give 27, 28, 52, 53; an address with no
  leading letter gives 0.
\<close>

theorem column_index_from_ref_base26:
  "(takeWhile is_upper_AZ ref \<noteq> [] \<longrightarrow>
      column_index_from_ref ref = base26_value (takeWhile is_upper_AZ ref)
      \<and> 0 < column_index_from_ref ref)
   \<and> (takeWhile is_upper_AZ ref = [] \<longrightarrow> column_index_from_ref ref = 0)
   \<and> (is_upper_AZ c \<longrightarrow> column_index_from_ref [c] = py_ord c - 64
        \<and> 1 \<le> column_index_from_ref [c] \<and> column_index_from_ref [c] \<le> 26)
   \<and> column_index_from_ref ''A'' = 1 \<and> column_index_from_ref ''Z'' = 26
   \<and> column_index_from_ref ''AA'' = 27 \<and> column_index_from_ref ''AB'' = 28
   \<and> column_index_from_ref ''AZ'' = 52 \<and> column_index_from_ref ''BA'' = 53"
proof -
  have A: "py_ord CHR ''A'' = 65" by (simp add: py_ord_def)
  have fold: "column_index_from_ref ref
      = foldl (\<lambda>result char. result * 26 + (py_ord char - py_ord CHR ''A'' + 1)) 0
          (takeWhile is_upper_AZ ref)"
    if "takeWhile is_upper_AZ ref \<noteq> []"
    using that by (simp add: column_index_from_ref_def match_letters_def split: list.splits)
  have run: "column_index_from_ref ref = base26_value (takeWhile is_upper_AZ ref)"
    if "takeWhile is_upper_AZ ref \<noteq> []"
    using fold [OF that] by (simp only: foldl_base26)
  have pos: "0 < column_index_from_ref ref" if ne: "takeWhile is_upper_AZ ref \<noteq> []"
  proof -
    have "\<forall>c \<in> set (takeWhile is_upper_AZ ref). is_upper_AZ c"
      by (auto dest: set_takeWhileD)
    then have "0 < foldl (\<lambda>result char. result * 26 + (py_ord char - py_ord CHR ''A'' + 1)) 0
        (takeWhile is_upper_AZ ref)"
      using ne by (rule foldl_letters_pos [OF _ _ order_refl])
    then show ?thesis by (simp only: fold [OF ne])
  qed
  have none: "column_index_from_ref ref = 0" if "takeWhile is_upper_AZ ref = []"
    using that by (simp add: column_index_from_ref_def match_letters_def)
  have single: "column_index_from_ref [c] = py_ord c - 64
      \<and> 1 \<le> column_index_from_ref [c] \<and> column_index_from_ref [c] \<le> 26" if "is_upper_AZ c"
    using that A by (simp add: column_index_from_ref_def match_letters_def is_upper_AZ_def py_ord_def)
  have ex: "column_index_from_ref ''A'' = 1" "column_index_from_ref ''Z'' = 26"
    "column_index_from_ref ''AA'' = 27" "column_index_from_ref ''AB'' = 28"
    "column_index_from_ref ''AZ'' = 52" "column_index_from_ref ''BA'' = 53"
    by (simp_all add: column_index_from_ref_def match_letters_def is_upper_AZ_def py_ord_def)
  from run pos none single ex show ?thesis by blast
qed

theorem column_index_from_ref_base26_witness:
  "column_index_from_ref ''AB12'' = 28 \<and> base26_value ''AB'' = 28
   \<and> column_index_from_ref ''12'' = 0 \<and> column_index_from_ref ''Q'' = 17"
proof -
  have t: "takeWhile is_upper_AZ ''AB12'' = ''AB''" "takeWhile is_upper_AZ ''12'' = []"
    "is_upper_AZ CHR ''Q''"
    by (simp_all add: is_upper_AZ_def py_ord_def)
  have v: "base26_value ''AB'' = 28"
    by (simp add: base26_value_def letter_value_def py_ord_def lessThan_Suc)
  have q: "py_ord CHR ''Q'' - 64 = 17" by (simp add: py_ord_def)
  show ?thesis
    using column_index_from_ref_base26 [of "''AB12''" "CHR ''Q''"]
      column_index_from_ref_base26 [of "''12''" "CHR ''Q''"] t v q
    by simp
qed

subsection \<open>Evaluation of the built-ins on literals\<close>

lemmas char_class_defs = py_ord_def is_space_def is_blank_def is_digit_def is_upper_AZ_def

lemmas py_int_eval = py_int_def trim_def digits_value_def char_class_defs

lemmas py_float_eval = py_float_def py_float_decimal_def py_float_exponent_def scale10_def
  lower_def lower_char_def trim_def digits_value_def char_class_defs

subsection \<open>Cell value decoder\<close>

lemma parse_cell_value_shared_string:
  assumes "c_t cell = Some ''s''" and "c_v cell = Some (Some raw)"
  shows "parse_cell_value b cell ss =
    (case b_int b raw of
       None \<Rightarrow> Empty
     | Some i \<Rightarrow>
         if 0 \<le> i \<and> i < int (length ss) then Text (ss ! nat i)
         else if - int (length ss) \<le> i \<and> i < 0 then Text (ss ! nat (int (length ss) + i))
         else Empty)"
  using assms by (auto simp: parse_cell_value_def py_index_def Let_def split: option.splits)

lemma parse_cell_value_shared_string_examples:
  "parse_cell_value (b\<lparr>b_int := py_int\<rparr>) (shared_cell ''A2'' ''1'') [''Alpha'', ''Beta''] = Text ''Beta''"
  "parse_cell_value (b\<lparr>b_int := py_int\<rparr>) (shared_cell ''A2'' ''5'') [''Alpha'', ''Beta''] = Empty"
  "parse_cell_value (b\<lparr>b_int := py_int\<rparr>) (shared_cell ''A2'' ''x'') [''Alpha'', ''Beta''] = Empty"
  by (simp_all add: parse_cell_value_def shared_cell_def py_index_def py_int_eval)

text \<open>
  Claim C4. A cell typed as a shared-string reference decodes to the text at its index when
  the raw value is an integer index in range of the table, and to Empty when the index is out
  of range or no integer. The code departs from this at a negative index: the raw value
  \<open>-1\<close> parses as the integer \<open>-1\<close>, which is no index of the two-entry table, and the
  decoder returns the last entry of the table instead of Empty. The statement holds with
  \<open>py_int\<close> for \<^verbatim>\<open>int\<close> and any choice of the other built-ins.
\<close>

theorem parse_cell_value_negative_index:
  "py_int ''-1'' = Some (- 1)
   \<and> parse_cell_value (b\<lparr>b_int := py_int\<rparr>) (shared_cell ''A2'' ''-1'') [''Alpha'', ''Beta'']
       = Text ''Beta''"
  by (simp add: parse_cell_value_def shared_cell_def py_index_def py_int_eval)

subsection \<open>Worksheet extractor\<close>




lemma scan_sheet_well_formed:
  "parts_well_formed pkg \<Longrightarrow>
   \<exists>ss. read_shared_strings pkg = Inr ss
     \<and> scan_sheet b pkg = scan_rows b ss (first_sheet_rows pkg) ([], 0)"
  by (auto simp: parts_well_formed_def scan_sheet_def read_shared_strings_def first_sheet_rows_def
      split: option.splits)








lemma sheet_names_single [simp]:
  "sheet_names (single_sheet_package rs) = [''xl/worksheets/sheet1.xml'']"
  by (simp add: sheet_names_def single_sheet_package_def suffix_to_prefix)

lemma first_sheet_rows_single [simp]: "first_sheet_rows (single_sheet_package rs) = rs"
  unfolding first_sheet_rows_def sheet_names_single
  by (simp add: single_sheet_package_def rows_of_sheet1_def)

lemma read_shared_strings_single [simp]: "read_shared_strings (single_sheet_package rs) = Inr []"
  by (simp add: read_shared_strings_def single_sheet_package_def)

lemma parts_well_formed_single [simp]: "parts_well_formed (single_sheet_package rs)"
  unfolding parts_well_formed_def sheet_names_single
  by (simp add: single_sheet_package_def rows_of_sheet1_def)

lemma scan_sheet_single:
  "scan_sheet b (single_sheet_package rs) = scan_rows b [] rs ([], 0)"
  using scan_sheet_well_formed [OF parts_well_formed_single, of rs b] by simp


lemmas cell_eval = row_index_def py_builtins_def py_int_eval inline_cell_def value_cell_def
  shared_cell_def column_index_from_ref_def match_letters_def parse_cell_value_def




lemma strip_unchanged:
  "s \<noteq> [] \<Longrightarrow> \<not> is_space (hd s) \<Longrightarrow> \<not> is_space (last s) \<Longrightarrow> strip s = s"
proof -
  assume s: "s \<noteq> []" "\<not> is_space (hd s)" "\<not> is_space (last s)"
  then have a: "dropWhile is_space s = s" by (simp add: dropWhile_eq_self_iff)
  from s have "dropWhile is_space (rev s) = rev s" by (simp add: dropWhile_eq_self_iff hd_rev)
  with a show ?thesis by (simp add: strip_def)
qed

lemma digit_char_not_space: "k < 10 \<Longrightarrow> \<not> is_space (''0123456789'' ! k)"
proof -
  assume "k < 10"
  then have "k \<in> {0, 1, 2, 3, 4, 5, 6, 7, 8, 9}" by auto
  then show ?thesis by (auto simp: is_space_def py_ord_def)
qed

lemma str_nat_last: "str_nat n \<noteq> [] \<and> \<not> is_space (last (str_nat n))"
proof (cases "n < 10")
  case True
  then show ?thesis by (simp add: str_nat.simps [of n] digit_char_not_space)
next
  case False
  have "n mod 10 < 10" by simp
  with False show ?thesis by (simp add: str_nat.simps [of n] digit_char_not_space)
qed

text \<open>The instance \<open>strip\<close> leaves the synthetic header names unchanged.\<close>

lemma strip_Column: "0 \<le> n \<Longrightarrow> strip (''Column'' @ str_int n) = ''Column'' @ str_int n"
proof (rule strip_unchanged)
  assume "0 \<le> n"
  then show "\<not> is_space (last (''Column'' @ str_int n))"
    using str_nat_last [of "nat n"] by (simp add: str_int_def)
qed (simp_all add: is_space_def py_ord_def)

lemma load_first_sheet_Inr:
  assumes "sheet_names pkg \<noteq> []" and "scan_sheet b pkg = Inr (rws, max_col)"
    and "map_of rws 1 = Some row1"
  shows "load_first_sheet b pkg =
    Inr \<lparr>headers = map (header_name b row1) [1..max_col],
         rows = map (\<lambda>row_idx. map (dict_get (row_at rws row_idx)) [1..max_col])
                  (sort (filter (\<lambda>idx. idx \<noteq> 1) (map fst rws)))\<rparr>"
  using assms by (simp add: load_first_sheet_def)

text \<open>
  Claim C6, as amended. For a sheet that is extracted, the header list has one entry for each
  column 1..max_col, and every entry is the result of \<^verbatim>\<open>strip()\<close>: of the synthetic name
  "Column" followed by \<open>n\<close> when the resolved cell of row 1 at column \<open>n\<close> is Empty or the
  empty text; of the text of the cell when it is a non-empty text; of the stringified number
  when the cell is a number other than zero.
\<close>

theorem load_first_sheet_headers:
  assumes "sheet_names pkg \<noteq> []" and "scan_sheet b pkg = Inr (rws, max_col)"
    and "map_of rws 1 = Some row1" and "1 \<le> n" and "n \<le> max_col"
  shows "\<exists>sheet. load_first_sheet b pkg = Inr sheet
    \<and> length (headers sheet) = nat max_col
    \<and> (dict_get row1 n = Empty \<or> dict_get row1 n = Text [] \<longrightarrow>
         headers sheet ! nat (n - 1) = b_strip b (''Column'' @ str_int n))
    \<and> (\<forall>t. dict_get row1 n = Text t \<and> t \<noteq> [] \<longrightarrow> headers sheet ! nat (n - 1) = b_strip b t)
    \<and> (\<forall>x. dict_get row1 n = Number x \<and> x \<noteq> Finite 0 \<longrightarrow>
         headers sheet ! nat (n - 1) = b_strip b (b_str b x))"
proof -
  let ?hs = "map (header_name b row1) [1..max_col]"
  have nth: "?hs ! nat (n - 1) = header_name b row1 n"
    using assms(4,5) by (simp add: nth_upto)
  have len: "length ?hs = nat max_col" by simp
  have h1: "dict_get row1 n = Empty \<or> dict_get row1 n = Text [] \<longrightarrow>
      header_name b row1 n = b_strip b (''Column'' @ str_int n)"
    by (auto simp: header_name_def)
  have h2: "\<forall>t. dict_get row1 n = Text t \<and> t \<noteq> [] \<longrightarrow> header_name b row1 n = b_strip b t"
    by (simp add: header_name_def)
  have h3: "\<forall>x. dict_get row1 n = Number x \<and> x \<noteq> Finite 0 \<longrightarrow>
      header_name b row1 n = b_strip b (b_str b x)"
    by (simp add: header_name_def)
  show ?thesis
    unfolding load_first_sheet_Inr [OF assms(1-3)]
    using nth len h1 h2 h3 by simp
qed

lemma scan_sheet_header_row_example:
  "scan_sheet py_builtins (single_sheet_package header_row_example)
     = Inr ([(1, [(1, Text '' Amount ''), (3, Number (Finite 2024))])], 3)"
  by (simp add: scan_sheet_single header_row_example_def cell_eval py_float_eval)

text \<open>The headers of the example row, at columns 1 and 2.\<close>

theorem load_first_sheet_headers_witness:
  "(\<exists>sheet. load_first_sheet py_builtins (single_sheet_package header_row_example) = Inr sheet
     \<and> length (headers sheet) = 3 \<and> headers sheet ! 0 = ''Amount'')
   \<and> (\<exists>sheet. load_first_sheet py_builtins (single_sheet_package header_row_example) = Inr sheet
     \<and> length (headers sheet) = 3 \<and> headers sheet ! 1 = ''Column2'')"
  using load_first_sheet_headers [OF _ scan_sheet_header_row_example, of _ 1]
    load_first_sheet_headers [OF _ scan_sheet_header_row_example, of _ 2]
  by (simp add: dict_get_def py_builtins_def strip_def is_space_def py_ord_def str_int_def
      str_nat.simps)

text \<open>
  Claim C6 as stated fails: the resolved cell of row 1 at column A is the text \<open>'' Amount ''\<close>,
  and the header is \<open>''Amount''\<close>, not the stringified value of the cell.
\<close>

theorem load_first_sheet_headers_counterexample:
  "scan_sheet py_builtins (single_sheet_package header_row_example)
     = Inr ([(1, [(1, Text '' Amount ''), (3, Number (Finite 2024))])], 3)
   \<and> load_first_sheet py_builtins (single_sheet_package header_row_example)
     = Inr \<lparr>headers = [''Amount'', ''Column2'', ''2024.0''], rows = []\<rparr>
   \<and> ''Amount'' \<noteq> py_str py_builtins (Text '' Amount '')"
proof -
  note scan = scan_sheet_header_row_example
  let ?row1 = "[(1, Text '' Amount ''), (3, Number (Finite 2024))] :: (int \<times> cell_value) list"
  have "load_first_sheet py_builtins (single_sheet_package header_row_example)
      = Inr \<lparr>headers = map (header_name py_builtins ?row1) [1..3],
             rows = map (\<lambda>row_idx. map (dict_get (row_at [(1, ?row1)] row_idx)) [1..3])
                      (sort (filter (\<lambda>idx. idx \<noteq> 1) (map fst [(1, ?row1)])))\<rparr>"
    by (rule load_first_sheet_Inr [OF _ scan]) simp_all
  also have "\<dots> = Inr \<lparr>headers = [''Amount'', ''Column2'', ''2024.0''], rows = []\<rparr>"
    by (simp add: header_name_def upto.simps dict_get_def py_builtins_def
        strip_def is_space_def py_ord_def str_int_def str_nat.simps)
  finally have load: "load_first_sheet py_builtins (single_sheet_package header_row_example)
      = Inr \<lparr>headers = [''Amount'', ''Column2'', ''2024.0''], rows = []\<rparr>" .
  have "''Amount'' \<noteq> py_str py_builtins (Text '' Amount '')"
    by simp
  with scan load show ?thesis by (intro conjI)
qed

subsection \<open>Column classifier\<close>

lemma zip_nth_upt:
  "zip xs ys = map (\<lambda>i. (xs ! i, ys ! i)) [0..<min (length xs) (length ys)]"
  by (rule nth_equalityI) auto

lemma map_fst_map_entry: "map fst (AList.map_entry k f xs) = map fst xs"
  by (induction xs) auto

lemma map_fst_append_cell: "map fst (append_cell b d hv) = map fst d"
  by (simp add: append_cell_def map_fst_map_entry split: option.splits)

lemma map_of_append_cell:
  "map_of (append_cell b d hv) h =
     map_option (\<lambda>vs. vs @ (if fst hv = h
                              then (case parse_numeric b (snd hv) of None \<Rightarrow> [] | Some x \<Rightarrow> [x])
                              else []))
       (map_of d h)"
  by (cases "map_of d h")
     (auto simp: append_cell_def map_of_map_entry split: option.splits)

lemma row_loop_keys: "map fst (foldl (append_cell b) d pairs) = map fst d"
  by (induction pairs arbitrary: d) (simp_all add: map_fst_append_cell)

lemma row_loop_map_of:
  "map_of (foldl (append_cell b) d pairs) h =
     map_option (\<lambda>vs. vs @ concat (map (\<lambda>hv. if fst hv = h
                              then (case parse_numeric b (snd hv) of None \<Rightarrow> [] | Some x \<Rightarrow> [x])
                              else []) pairs))
       (map_of d h)"
proof (induction pairs arbitrary: d)
  case Nil
  show ?case by (simp add: option.map_ident)
next
  case (Cons hv pairs)
  show ?case
    by (simp add: Cons.IH map_of_append_cell option.map_comp comp_def)
qed

lemma row_loop_zip:
  "map_of (foldl (append_cell b) d (zip hs row)) h =
     map_option (\<lambda>vs. vs @ concat (map (\<lambda>i. if hs ! i = h
                         then (case parse_numeric b (row ! i) of None \<Rightarrow> [] | Some x \<Rightarrow> [x])
                         else [])
                  [0..<min (length hs) (length row)]))
       (map_of d h)"
  unfolding row_loop_map_of
  by (subst zip_nth_upt) (simp add: comp_def cong: if_cong)

lemma rows_loop_keys:
  "map fst (foldl (\<lambda>columns row. foldl (append_cell b) columns (zip hs row)) d rws) = map fst d"
  by (induction rws arbitrary: d) (simp_all add: row_loop_keys)

lemma rows_loop_map_of:
  "map_of (foldl (\<lambda>columns row. foldl (append_cell b) columns (zip hs row)) d rws) h =
     map_option (\<lambda>vs. vs @ concat (map (\<lambda>row.
        concat (map (\<lambda>i. if hs ! i = h
                         then (case parse_numeric b (row ! i) of None \<Rightarrow> [] | Some x \<Rightarrow> [x])
                         else [])
                  [0..<min (length hs) (length row)])) rws))
       (map_of d h)"
proof (induction rws arbitrary: d)
  case Nil
  show ?case by (simp add: option.map_ident)
next
  case (Cons row rws)
  show ?case
    by (simp add: Cons.IH row_loop_zip option.map_comp comp_def)
qed

lemma init_loop_keys:
  "distinct (map fst d) \<Longrightarrow>
   distinct (map fst (foldl (\<lambda>columns header. AList.update header [] columns) d hs))"
  by (induction hs arbitrary: d) (simp_all add: distinct_update)

lemma init_loop_map_of:
  "map_of (foldl (\<lambda>columns header. AList.update header [] columns) d hs) h =
     (if h \<in> set hs then Some [] else map_of d h)"
proof (induction hs arbitrary: d rule: rev_induct)
  case Nil
  show ?case by simp
next
  case (snoc x hs)
  show ?case by (simp add: snoc.IH update_conv')
qed

lemma map_of_filter_distinct:
  "distinct (map fst d) \<Longrightarrow>
   map_of (filter P d) h = (case map_of d h of None \<Rightarrow> None | Some v \<Rightarrow> if P (h, v) then Some v else None)"
proof (induction d)
  case Nil
  show ?case by simp
next
  case (Cons kv d)
  obtain k v where kv: "kv = (k, v)" by (cases kv)
  from Cons.prems kv have nk: "map_of d k = None"
    by (simp add: map_of_eq_None_iff)
  from Cons.prems have IH: "map_of (filter P d) h =
      (case map_of d h of None \<Rightarrow> None | Some v \<Rightarrow> if P (h, v) then Some v else None)"
    by (intro Cons.IH) simp
  show ?case
    using nk IH by (auto simp: kv split: option.splits)
qed

lemma numeric_columns_distinct: "distinct (map fst (numeric_columns b sheet))"
proof -
  let ?c0 = "foldl (\<lambda>columns header. AList.update header [] columns) [] (headers sheet)"
  let ?c = "foldl (\<lambda>columns row. foldl (append_cell b) columns (zip (headers sheet) row)) ?c0 (rows sheet)"
  have "distinct (map fst ?c)"
    unfolding rows_loop_keys by (rule init_loop_keys) simp
  then have "distinct (map fst (filter (\<lambda>(header, values). values \<noteq> [] \<and> \<not> is_date_like_column b header values) ?c))"
    by (rule distinct_map_filter)
  then show ?thesis by (simp add: numeric_columns_def Let_def)
qed

lemma numeric_columns_map_of:
  "map_of (numeric_columns b sheet) h =
     (if h \<in> set (headers sheet) \<and> column_values b sheet h \<noteq> []
         \<and> \<not> is_date_like_column b h (column_values b sheet h)
      then Some (column_values b sheet h) else None)"
proof -
  let ?c0 = "foldl (\<lambda>columns header. AList.update header [] columns) [] (headers sheet)"
  let ?c = "foldl (\<lambda>columns row. foldl (append_cell b) columns (zip (headers sheet) row)) ?c0 (rows sheet)"
  have d: "distinct (map fst ?c)"
    unfolding rows_loop_keys by (rule init_loop_keys) simp
  have m: "map_of ?c h = (if h \<in> set (headers sheet) then Some (column_values b sheet h) else None)"
    by (simp add: rows_loop_map_of init_loop_map_of column_values_def)
  have "numeric_columns b sheet
      = filter (\<lambda>(header, values). values \<noteq> [] \<and> \<not> is_date_like_column b header values) ?c"
    by (simp add: numeric_columns_def Let_def)
  then show ?thesis
    by (simp add: map_of_filter_distinct [OF d] m)
qed

lemma py_round_nearest:
  assumes "\<bar>x - of_int k\<bar> < 1 / 100"
  shows "py_round x = k"
proof (cases "of_int k \<le> x")
  case True
  with assms have "\<lfloor>x\<rfloor> = k" by (intro floor_unique) auto
  moreover from True assms have "x - of_int k < 1 / 2" by simp
  ultimately show ?thesis by (simp add: py_round_def)
next
  case False
  with assms have f: "\<lfloor>x\<rfloor> = k - 1" by (intro floor_unique) auto
  from False assms have "1 / 2 < x - of_int (k - 1)" by simp
  with f show ?thesis by (simp add: py_round_def)
qed

lemma date_like_value_iff: "date_like_value v = serial_date_value v"
proof (cases v)
  case (Finite x)
  have "(\<bar>x - of_int (py_round x)\<bar> < 1 / 100) = (\<exists>k::int. \<bar>x - of_int k\<bar> < 1 / 100)"
    using py_round_nearest [of x] by auto
  with Finite show ?thesis by (simp add: serial_date_value_def)
qed (simp_all add: serial_date_value_def)

lemma count_loop:
  "foldl (\<lambda>n v. if P v then n + 1 else n) (acc::int) vs = acc + int (length (filter P vs))"
  by (induction vs arbitrary: acc) simp_all

lemma is_date_like_column_iff:
  "is_date_like_column b h vs =
     (contains ''date'' (b_lower b h) \<or> (vs \<noteq> [] \<and> mostly_serial_dates vs))"
proof (cases "vs = []")
  case True
  then show ?thesis by (simp add: is_date_like_column_def)
next
  case False
  then have pos: "0 < real (length vs)" by simp
  have "(8 / 10 \<le> real_of_int (int (length (filter date_like_value vs))) / real (length vs))
      = (4 * real (length vs) \<le> 5 * real (length (filter date_like_value vs)))"
    using pos by (simp add: field_simps)
  also have "\<dots> = (4 * length vs \<le> 5 * length (filter date_like_value vs))"
    by (metis (no_types) of_nat_le_iff of_nat_mult of_nat_numeral)
  finally show ?thesis
    using False
    by (simp add: is_date_like_column_def count_loop mostly_serial_dates_def date_like_value_iff
        cong: filter_cong)
qed

lemma concat_single_index:
  "concat (map (\<lambda>j. if j = i then f j else []) [0..<n]) = (if i < n then f i else [])"
  by (induction n) auto

lemma column_values_distinct:
  assumes "distinct (headers sheet)" and "i < length (headers sheet)"
  shows "column_values b sheet (headers sheet ! i) = own_values b sheet i"
proof -
  let ?hs = "headers sheet"
  let ?g = "\<lambda>row j. case parse_numeric b (row ! j) of None \<Rightarrow> [] | Some x \<Rightarrow> [x]"
  have "concat (map (\<lambda>j. if ?hs ! j = ?hs ! i then ?g row j else [])
            [0..<min (length ?hs) (length row)])
      = (if i < length row then ?g row i else [])" for row
  proof -
    have "map (\<lambda>j. if ?hs ! j = ?hs ! i then ?g row j else []) [0..<min (length ?hs) (length row)]
        = map (\<lambda>j. if j = i then ?g row j else []) [0..<min (length ?hs) (length row)]"
      using assms by (intro map_cong refl) (auto simp: nth_eq_iff_index_eq)
    then show ?thesis using assms(2) by (simp only: concat_single_index) simp
  qed
  then show ?thesis by (simp add: column_values_def own_values_def)
qed

text \<open>
  Claim C3, as amended. The classification is by header name, over the values of all columns
  with that header taken together: a header of the sheet is absent from the result of
  \<open>numeric_columns\<close> if and only if its text contains "date" in any letter case, or at least
  80% of the numeric values parsed under it lie in [20000, 60000] less than 0.01 away from an
  integer, or no value was parsed under it; every other header is present, with exactly those
  values. When the headers of the sheet are pairwise distinct, the values of a header are the
  values of its one column, and the classification is column by column.
\<close>

theorem numeric_columns_classification:
  "(h \<in> set (headers sheet) \<longrightarrow>
     (map_of (numeric_columns b sheet) h = None)
       = (contains ''date'' (b_lower b h)
          \<or> mostly_serial_dates (column_values b sheet h)
          \<or> column_values b sheet h = [])
     \<and> (map_of (numeric_columns b sheet) h \<noteq> None \<longrightarrow>
          map_of (numeric_columns b sheet) h = Some (column_values b sheet h)))
   \<and> (distinct (headers sheet) \<longrightarrow>
        (\<forall>i < length (headers sheet).
           (map_of (numeric_columns b sheet) (headers sheet ! i) = None)
             = (contains ''date'' (b_lower b (headers sheet ! i))
                \<or> mostly_serial_dates (own_values b sheet i)
                \<or> own_values b sheet i = [])
           \<and> (map_of (numeric_columns b sheet) (headers sheet ! i) \<noteq> None \<longrightarrow>
                map_of (numeric_columns b sheet) (headers sheet ! i) = Some (own_values b sheet i))))"
proof -
  have merged: "(map_of (numeric_columns b sheet) h = None)
       = (contains ''date'' (b_lower b h)
          \<or> mostly_serial_dates (column_values b sheet h)
          \<or> column_values b sheet h = [])
     \<and> (map_of (numeric_columns b sheet) h \<noteq> None \<longrightarrow>
          map_of (numeric_columns b sheet) h = Some (column_values b sheet h))"
    if "h \<in> set (headers sheet)" for h
    using that
    by (auto simp: numeric_columns_map_of is_date_like_column_iff mostly_serial_dates_def)
  have "(map_of (numeric_columns b sheet) (headers sheet ! i) = None)
       = (contains ''date'' (b_lower b (headers sheet ! i))
          \<or> mostly_serial_dates (own_values b sheet i)
          \<or> own_values b sheet i = [])
     \<and> (map_of (numeric_columns b sheet) (headers sheet ! i) \<noteq> None \<longrightarrow>
          map_of (numeric_columns b sheet) (headers sheet ! i) = Some (own_values b sheet i))"
    if "distinct (headers sheet)" and "i < length (headers sheet)" for i
  proof -
    from that(2) have "headers sheet ! i \<in> set (headers sheet)" by (rule nth_mem)
    from merged [OF this] show ?thesis unfolding column_values_distinct [OF that] .
  qed
  with merged show ?thesis by blast
qed

text \<open>
  Claim C10. The result of \<open>numeric_columns\<close> has at most one entry for a header, and the
  value list of an entry holds the parsed values of all columns with that header, merged row
  by row and, within a row, column by column.
\<close>

theorem numeric_columns_merges_duplicates:
  "distinct (map fst (numeric_columns b sheet))
   \<and> (\<forall>vs. (h, vs) \<in> set (numeric_columns b sheet) \<longrightarrow> vs = column_values b sheet h)"
proof -
  have "vs = column_values b sheet h" if "(h, vs) \<in> set (numeric_columns b sheet)" for vs
  proof -
    from that have "map_of (numeric_columns b sheet) h = Some vs"
      by (simp add: numeric_columns_distinct)
    then show ?thesis by (simp add: numeric_columns_map_of split: if_splits)
  qed
  with numeric_columns_distinct show ?thesis by blast
qed

lemma column_values_zip:
  "column_values b sheet h =
     concat (map (\<lambda>row. concat (map (\<lambda>hv. if fst hv = h
                              then (case parse_numeric b (snd hv) of None \<Rightarrow> [] | Some x \<Rightarrow> [x])
                              else []) (zip (headers sheet) row)))
       (rows sheet))"
  unfolding column_values_def
  by (subst zip_nth_upt) (simp add: comp_def cong: if_cong)

lemma py_builtins_sel [simp]:
  "b_int py_builtins = py_int" "b_float py_builtins = py_float" "b_str py_builtins = py_float_str"
  "b_strip py_builtins = strip" "b_lower py_builtins = lower"
  by (simp_all add: py_builtins_def)

lemma column_values_example:
  "column_values py_builtins classifier_example ''Amount''
     = [Finite 100, Finite (2469 / 2), Finite 200, Finite 300, Finite 7]"
  "column_values py_builtins classifier_example ''When'' = [Finite 20000, Finite 45000, Finite 45001]"
  "column_values py_builtins classifier_example ''Note'' = []"
  by (simp_all add: column_values_zip classifier_example_def py_float_eval)

lemma numeric_columns_example:
  "numeric_columns py_builtins classifier_example
     = [(''Amount'', [Finite 100, Finite (2469 / 2), Finite 200, Finite 300, Finite 7])]"
  by (simp add: numeric_columns_def classifier_example_def append_cell_def py_float_eval
      is_date_like_column_def py_round_def lower_def lower_char_def contains_def)

lemma own_values_example:
  "own_values py_builtins distinct_header_example 0 = [Finite 100, Finite 200, Finite 300]"
  "own_values py_builtins distinct_header_example (Suc 0) = [Finite 20000, Finite 20001]"
  by (simp_all add: own_values_def distinct_header_example_def py_float_eval)

text \<open>The classification of the example sheet: the serial dates, the text column and the
  column named Date are dropped, the two Amount columns are kept. In the sheet with distinct
  headers the first column is kept and the second, of serial dates, is dropped.\<close>

theorem numeric_columns_classification_witness:
  "''When'' \<in> set (headers classifier_example)
   \<and> map_of (numeric_columns py_builtins classifier_example) ''When'' = None
   \<and> map_of (numeric_columns py_builtins classifier_example) ''Note'' = None
   \<and> map_of (numeric_columns py_builtins classifier_example) ''Date'' = None
   \<and> map_of (numeric_columns py_builtins classifier_example) ''Amount''
       = Some [Finite 100, Finite (2469 / 2), Finite 200, Finite 300, Finite 7]
   \<and> distinct (headers distinct_header_example)
   \<and> map_of (numeric_columns py_builtins distinct_header_example) ''Amount''
       = Some [Finite 100, Finite 200, Finite 300]
   \<and> map_of (numeric_columns py_builtins distinct_header_example) ''When'' = None"
proof -
  have hs: "headers classifier_example = [''Amount'', ''Date'', ''When'', ''Amount'', ''Note'']"
    "headers distinct_header_example = [''Amount'', ''When'']"
    by (simp_all add: classifier_example_def distinct_header_example_def)
  have dates: "mostly_serial_dates [Finite 20000, Finite 45000, Finite 45001]"
    "mostly_serial_dates [Finite 20000, Finite 20001]"
    "\<not> mostly_serial_dates [Finite 100, Finite (2469 / 2), Finite 200, Finite 300, Finite 7]"
    "\<not> mostly_serial_dates [Finite 100, Finite 200, Finite 300]"
    by (simp_all add: mostly_serial_dates_def date_like_value_iff [symmetric] py_round_def)
  have names: "contains ''date'' (lower ''Date'')" "\<not> contains ''date'' (lower ''Amount'')"
    "\<not> contains ''date'' (lower ''When'')" "\<not> contains ''date'' (lower ''Note'')"
    by (simp_all add: lower_def lower_char_def contains_def)
  from numeric_columns_classification [of "''When''" classifier_example py_builtins]
    numeric_columns_classification [of "''Note''" classifier_example py_builtins]
    numeric_columns_classification [of "''Date''" classifier_example py_builtins]
    numeric_columns_classification [of "''Amount''" classifier_example py_builtins]
    numeric_columns_classification [of "''Amount''" distinct_header_example py_builtins,
      THEN conjunct2, rule_format, of 0]
    numeric_columns_classification [of "''Amount''" distinct_header_example py_builtins,
      THEN conjunct2, rule_format, of 1]
  show ?thesis
    by (auto simp: hs column_values_example own_values_example dates names)
qed

text \<open>
  Claim C3 as stated fails in both directions when a header is repeated. In the first sheet
  every value of the second column named X is a serial date, and the column is not dropped:
  its values are in the result, merged with those of the first column. In the second sheet
  two of the three values of the first column named X are serial dates, fewer than 80%, the
  column has values and its header does not contain "date", and yet it is dropped, because
  five of the six values under the header X are serial dates.
\<close>

theorem numeric_columns_classification_counterexample:
  "headers repeated_header_example ! 1 = ''X''
   \<and> own_values py_builtins repeated_header_example 1 = [Finite 20000, Finite 20001]
   \<and> mostly_serial_dates (own_values py_builtins repeated_header_example 1)
   \<and> map_of (numeric_columns py_builtins repeated_header_example) ''X''
       = Some [Finite 100, Finite 20000, Finite 200, Finite 20001]
   \<and> headers merged_dates_example ! 0 = ''X''
   \<and> \<not> contains ''date'' (b_lower py_builtins ''X'')
   \<and> own_values py_builtins merged_dates_example 0 = [Finite 5, Finite 20001, Finite 20003]
   \<and> \<not> mostly_serial_dates (own_values py_builtins merged_dates_example 0)
   \<and> map_of (numeric_columns py_builtins merged_dates_example) ''X'' = None"
proof -
  have own: "own_values py_builtins repeated_header_example 1 = [Finite 20000, Finite 20001]"
    "own_values py_builtins merged_dates_example 0 = [Finite 5, Finite 20001, Finite 20003]"
    by (simp_all add: own_values_def repeated_header_example_def merged_dates_example_def)
  have dates: "mostly_serial_dates [Finite 20000, Finite 20001]"
    "\<not> mostly_serial_dates [Finite 5, Finite 20001, Finite 20003]"
    by (simp_all add: mostly_serial_dates_def date_like_value_iff [symmetric] py_round_def)
  have name: "\<not> contains ''date'' (b_lower py_builtins ''X'')"
    by (simp add: lower_def lower_char_def contains_def)
  have kept: "map_of (numeric_columns py_builtins repeated_header_example) ''X''
       = Some [Finite 100, Finite 20000, Finite 200, Finite 20001]"
    by (simp add: numeric_columns_def repeated_header_example_def append_cell_def
        is_date_like_column_def py_round_def lower_def lower_char_def contains_def)
  have dropped: "map_of (numeric_columns py_builtins merged_dates_example) ''X'' = None"
    by (simp add: numeric_columns_def merged_dates_example_def append_cell_def
        is_date_like_column_def py_round_def lower_def lower_char_def contains_def)
  have "headers repeated_header_example ! 1 = ''X''" "headers merged_dates_example ! 0 = ''X''"
    by (simp_all add: repeated_header_example_def merged_dates_example_def)
  with own dates name kept dropped show ?thesis by simp
qed

text \<open>The two Amount columns of the example sheet give one entry.\<close>

theorem numeric_columns_merges_duplicates_witness:
  "(''Amount'', [Finite 100, Finite (2469 / 2), Finite 200, Finite 300, Finite 7])
     \<in> set (numeric_columns py_builtins classifier_example)
   \<and> column_values py_builtins classifier_example ''Amount''
       = [Finite 100, Finite (2469 / 2), Finite 200, Finite 300, Finite 7]
   \<and> length (filter (\<lambda>header. header = ''Amount'') (headers classifier_example)) = 2"
  using numeric_columns_merges_duplicates [of py_builtins classifier_example "''Amount''"]
  by (simp add: numeric_columns_example) (simp add: classifier_example_def)

subsection \<open>Benford engine: leading digits\<close>

lemma powr10_int: "(10::real) powr of_int k = 10 powi k"
  by (rule powr_real_of_int') simp_all

lemma floor_log10_eq:
  assumes "10 powi e \<le> x" and "x < 10 powi (e + 1)"
  shows "\<lfloor>log 10 x\<rfloor> = e"
proof -
  have "0 < (10::real) powi e" by simp
  with assms(1) have pos: "0 < x" by linarith
  from assms(1) pos have "of_int e \<le> log 10 x" by (simp add: le_log_iff powr10_int)
  moreover from assms(2) pos have "log 10 x < of_int e + 1"
    using log_less_iff [of 10 x "of_int (e + 1)"] by (simp add: powr10_int del: of_int_add)
  ultimately show ?thesis by (intro floor_unique) simp_all
qed

lemma exponent_in_range:
  assumes "x \<noteq> 0" and "in_pow10_range x"
  shows "- 323 \<le> \<lfloor>log 10 \<bar>x\<bar>\<rfloor> \<and> \<lfloor>log 10 \<bar>x\<bar>\<rfloor> \<le> 308"
proof -
  from assms(1) have pos: "0 < \<bar>x\<bar>" by simp
  from assms have lo: "10 powi (- 323) \<le> \<bar>x\<bar>" and hi: "\<bar>x\<bar> < 10 powi 309"
    by (simp_all add: in_pow10_range_def)
  from lo pos have "of_int (- 323) \<le> log 10 \<bar>x\<bar>"
    by (simp only: le_log_iff powr10_int)
  then have a: "- 323 \<le> \<lfloor>log 10 \<bar>x\<bar>\<rfloor>" by (simp only: le_floor_iff)
  from hi pos have "log 10 \<bar>x\<bar> < of_int 309"
    using log_less_iff [of 10 "\<bar>x\<bar>" "of_int 309"] by (simp only: powr10_int)
  then have "\<lfloor>log 10 \<bar>x\<bar>\<rfloor> < 309" by (simp only: floor_less_iff)
  with a show ?thesis by simp
qed

lemma div_pow10_in_range:
  assumes "x \<noteq> 0" and "in_pow10_range x"
  shows "div_pow10 (Finite \<bar>x\<bar>) \<lfloor>log 10 \<bar>x\<bar>\<rfloor> = Inr (Finite (\<bar>x\<bar> / 10 powi \<lfloor>log 10 \<bar>x\<bar>\<rfloor>))"
  using exponent_in_range [OF assms] by (simp add: div_pow10_def)

lemma leading_digits_loop_finite:
  "\<forall>x \<in> set xs. in_pow10_range x \<Longrightarrow>
   leading_digits_loop acc (map Finite xs) = Inr (acc @ retained_digits xs)"
proof (induction xs arbitrary: acc)
  case Nil
  show ?case by (simp add: retained_digits_def)
next
  case (Cons x xs)
  from Cons.prems have IH: "leading_digits_loop acc' (map Finite xs) = Inr (acc' @ retained_digits xs)"
    for acc' by (intro Cons.IH) simp
  show ?case
  proof (cases "x = 0")
    case True
    then show ?thesis using IH by (simp add: retained_digits_def)
  next
    case False
    then have pos: "0 < \<bar>x\<bar>" by simp
    have nn: "0 \<le> \<bar>x\<bar> / 10 powi \<lfloor>log 10 \<bar>x\<bar>\<rfloor>" by simp
    from Cons.prems have "in_pow10_range x" by simp
    note d = div_pow10_in_range [OF False this]
    show ?thesis
      using False pos nn IH d
      by (simp add: retained_digits_def leading_digit_of_def)
  qed
qed

lemma leading_digits_finite:
  "\<forall>x \<in> set xs. in_pow10_range x \<Longrightarrow> leading_digits (map Finite xs) = Inr (retained_digits xs)"
  by (simp add: leading_digits_def leading_digits_loop_finite)

lemma leading_digit_of_range:
  assumes "x \<noteq> 0"
  shows "1 \<le> leading_digit_of x \<and> leading_digit_of x \<le> 9"
proof -
  define e where "e = \<lfloor>log 10 \<bar>x\<bar>\<rfloor>"
  from assms have pos: "0 < \<bar>x\<bar>" by simp
  have p: "(10::real) powr of_int k = 10 powi k" for k
    by (rule powr_real_of_int') simp_all
  have ppos: "0 < (10::real) powi e" by simp
  have "of_int e \<le> log 10 \<bar>x\<bar>" by (simp add: e_def)
  then have lo: "10 powi e \<le> \<bar>x\<bar>"
    using pos by (simp add: le_log_iff p)
  have "log 10 \<bar>x\<bar> < of_int (e + 1)" unfolding e_def by linarith
  then have "\<bar>x\<bar> < 10 powr of_int (e + 1)"
    using pos by (simp add: log_less_iff del: of_int_add)
  then have hi: "\<bar>x\<bar> < 10 * 10 powi e"
    unfolding p by (simp add: power_int_add)
  from lo ppos have "1 \<le> \<bar>x\<bar> / 10 powi e" by (simp add: field_simps)
  moreover from hi ppos have "\<bar>x\<bar> / 10 powi e < 10" by (simp add: field_simps)
  ultimately have "1 \<le> \<lfloor>\<bar>x\<bar> / 10 powi e\<rfloor> \<and> \<lfloor>\<bar>x\<bar> / 10 powi e\<rfloor> \<le> 9"
    by (simp add: le_floor_iff floor_le_iff)
  then show ?thesis by (simp add: leading_digit_of_def e_def)
qed

lemma retained_digits_all:
  "retained_digits xs = map leading_digit_of (filter (\<lambda>x. x \<noteq> 0) xs)"
  unfolding retained_digits_def
  by (rule filter_True) (auto simp: leading_digit_of_range)

lemma leading_digits_loop_stops:
  assumes "v = NaN \<or> v = PosInf \<or> v = NegInf" and "\<forall>x \<in> set xs. in_pow10_range x"
  shows "leading_digits_loop acc (map Finite xs @ v # rest) =
    Inl (if v = NaN then ValueError ''cannot convert float NaN to integer''
         else OverflowError ''cannot convert float infinity to integer'')"
  using assms(2)
proof (induction xs arbitrary: acc)
  case Nil
  from assms(1) show ?case by auto
next
  case (Cons x xs)
  from Cons.prems have IH: "leading_digits_loop acc' (map Finite xs @ v # rest) =
    Inl (if v = NaN then ValueError ''cannot convert float NaN to integer''
         else OverflowError ''cannot convert float infinity to integer'')"
    for acc' by (intro Cons.IH) simp
  show ?case
  proof (cases "x = 0")
    case True
    then show ?thesis using IH by simp
  next
    case False
    then have pos: "0 < \<bar>x\<bar>" by simp
    from Cons.prems have "in_pow10_range x" by simp
    note d = div_pow10_in_range [OF False this]
    show ?thesis
      using False pos IH d by simp
  qed
qed

lemma in_pow10_range_123: "\<forall>x \<in> set [123]. in_pow10_range x"
proof -
  have "(10::real) powi (- 323) \<le> 10 powi 0" by (rule power_int_increasing) simp_all
  moreover have "(10::real) powi 3 \<le> 10 powi 309" by (rule power_int_increasing) simp_all
  ultimately show ?thesis by (simp add: in_pow10_range_def)
qed

text \<open>
  Claim C2. The leading-digit extraction leaves zero values out, computes for every other
  value the exponent \<open>floor(log10 |value|)\<close> and the digit \<open>floor(|value| / 10^exponent)\<close>,
  and keeps the digit when it lies in 1..9; a result outside that range is dropped without
  an error. The code departs from this at the values NaN and infinity, which
  \<open>parse_numeric\<close> yields for the texts "nan" and "inf": \<^verbatim>\<open>math.floor\<close> raises, and the
  extraction of the whole column fails.
\<close>

theorem leading_digits_not_finite:
  "parse_numeric py_builtins (Text ''nan'') = Some NaN
   \<and> leading_digits [Finite 123, NaN] = Inl (ValueError ''cannot convert float NaN to integer'')
   \<and> parse_numeric py_builtins (Text ''inf'') = Some PosInf
   \<and> leading_digits [Finite 123, PosInf]
        = Inl (OverflowError ''cannot convert float infinity to integer'')
   \<and> summarize_benford [(''Amount'', [Finite 123, NaN])]
        = Inl (ValueError ''cannot convert float NaN to integer'')"
  using leading_digits_loop_stops [of NaN "[123]" "[]" "[]", OF _ in_pow10_range_123]
    leading_digits_loop_stops [of PosInf "[123]" "[]" "[]", OF _ in_pow10_range_123]
  by (simp add: leading_digits_def py_float_eval summarize_benford_def benford_for_column_def)

subsection \<open>Benford engine: the histogram of one column\<close>

text \<open>The guarded quotient of the loop never divides by zero: the loop returns its rows.\<close>

lemma histogram_loop_rows:
  "histogram_loop digits label tot rws ds =
     Inr (rws @ map (\<lambda>digit.
             (let observed = (if tot \<noteq> 0 then real_of_int (digit_count digits digit) / real_of_int tot
                              else 0);
                  expected = EXPECTED_DIGITS digit
              in \<lparr>dr_column = label, dr_digit = digit, dr_count = digit_count digits digit,
                   dr_observed = observed, dr_expected = expected,
                   dr_deviation = observed - expected\<rparr>)) ds)"
proof (cases "tot = 0")
  case True
  have "histogram_loop digits label 0 rws ds =
     Inr (rws @ map (\<lambda>digit.
              \<lparr>dr_column = label, dr_digit = digit, dr_count = digit_count digits digit,
               dr_observed = 0, dr_expected = EXPECTED_DIGITS digit,
               dr_deviation = 0 - EXPECTED_DIGITS digit\<rparr>) ds)"
    by (induction ds arbitrary: rws) (simp_all add: Let_def)
  with True show ?thesis by (simp add: Let_def)
next
  case False
  then have "histogram_loop digits label tot rws ds =
     Inr (rws @ map (\<lambda>digit.
              \<lparr>dr_column = label, dr_digit = digit, dr_count = digit_count digits digit,
               dr_observed = real_of_int (digit_count digits digit) / real_of_int tot,
               dr_expected = EXPECTED_DIGITS digit,
               dr_deviation = real_of_int (digit_count digits digit) / real_of_int tot
                 - EXPECTED_DIGITS digit\<rparr>) ds)"
    by (induction ds arbitrary: rws) (simp_all add: int_truediv_def Let_def)
  with False show ?thesis by (simp add: Let_def)
qed

lemma benford_for_column_rows:
  "benford_for_column values label =
     (case leading_digits values of Inl e \<Rightarrow> Inl e | Inr digits \<Rightarrow> Inr (benford_rows digits label))"
  by (simp add: benford_for_column_def histogram_loop_rows benford_rows_def Let_def
      split: sum.splits)

lemma total_count: "sum_list (map (digit_count digits) [1..9]) = int (\<Sum>k \<in> {1..9}. count_list digits k)"
proof -
  have "sum_list (map (digit_count digits) [1..9]) = sum (digit_count digits) (set [1..9])"
    by (rule sum_list_distinct_conv_sum_set) simp
  then show ?thesis by (simp add: digit_count_def)
qed

lemma benford_rows_length: "length (benford_rows digits label) = 9"
  by (simp add: benford_rows_def Let_def)

lemma benford_rows_nth:
  assumes "1 \<le> d" and "d \<le> 9"
  shows "benford_rows digits label ! nat (d - 1) =
    \<lparr>dr_column = label, dr_digit = d, dr_count = int (count_list digits d),
     dr_observed = observed_share digits d, dr_expected = log 10 (1 + 1 / of_int d),
     dr_deviation = observed_share digits d - log 10 (1 + 1 / of_int d)\<rparr>"
proof -
  define N where "N = (\<Sum>k \<in> {1..9}. count_list digits k)"
  have n: "[1..9] ! nat (d - 1) = d" using assms by (simp add: nth_upto)
  have l: "nat (d - 1) < length [1..9]" using assms by simp
  have t: "sum_list (map (digit_count digits) [1..9]) = int N"
    by (simp only: total_count N_def)
  have o: "observed_share digits d = (if N = 0 then 0 else real (count_list digits d) / real N)"
    by (simp add: observed_share_def N_def)
  show ?thesis
    unfolding benford_rows_def Let_def nth_map [OF l] n t o
    by (simp add: digit_count_def EXPECTED_DIGITS_def)
qed

text \<open>
  When the digit population of a column is extracted, \<open>benford_for_column\<close> returns exactly
  nine rows, one for each digit 1..9 in order, with the count of the digit and
  \<open>observed = count / total\<close>, where \<open>total\<close> is the sum of the nine counts, and
  \<open>observed = 0\<close> for every digit when \<open>total\<close> is 0, in particular for an empty population.
  The only errors of \<open>benford_for_column\<close> are those of the extraction.
\<close>

lemma benford_for_column_observed:
  "(case benford_for_column values label of
      Inl e \<Rightarrow> leading_digits values = Inl e
    | Inr rws \<Rightarrow>
        (\<exists>digits. leading_digits values = Inr digits \<and> length rws = 9
           \<and> (\<forall>d \<in> {1..9}.
                 dr_digit (rws ! nat (d - 1)) = d
                 \<and> dr_count (rws ! nat (d - 1)) = int (count_list digits d)
                 \<and> dr_observed (rws ! nat (d - 1))
                     = (if (\<Sum>k \<in> {1..9}. count_list digits k) = 0 then 0
                        else real (count_list digits d) / real (\<Sum>k \<in> {1..9}. count_list digits k)))
           \<and> (digits = [] \<longrightarrow> (\<forall>row \<in> set rws. dr_observed row = 0 \<and> dr_count row = 0))))"
proof (cases "leading_digits values")
  case (Inl e)
  then show ?thesis by (simp add: benford_for_column_rows)
next
  case (Inr digits)
  have rows: "\<forall>d \<in> {1..9}.
      dr_digit (benford_rows digits label ! nat (d - 1)) = d
      \<and> dr_count (benford_rows digits label ! nat (d - 1)) = int (count_list digits d)
      \<and> dr_observed (benford_rows digits label ! nat (d - 1))
          = (if (\<Sum>k \<in> {1..9}. count_list digits k) = 0 then 0
             else real (count_list digits d) / real (\<Sum>k \<in> {1..9}. count_list digits k))"
    by (simp add: benford_rows_nth observed_share_def)
  have empty: "\<forall>row \<in> set (benford_rows [] label). dr_observed row = 0 \<and> dr_count row = 0"
    by (simp add: benford_rows_def Let_def total_count) (simp add: digit_count_def)
  from Inr rows empty show ?thesis
    by (simp add: benford_for_column_rows benford_rows_length)
qed

text \<open>A column of values in the range of the powers of ten has its nine rows.\<close>

lemma benford_for_column_in_range:
  "\<forall>x \<in> set xs. in_pow10_range x \<Longrightarrow>
   \<exists>rws. benford_for_column (map Finite xs) label = Inr rws \<and> length rws = 9"
  by (simp add: benford_for_column_rows leading_digits_finite benford_rows_length)

text \<open>The decimal exponent of the smallest positive float is \<open>-324\<close>.\<close>

lemma smallest_float_bounds:
  "(10::real) powi (- 324) \<le> smallest_float" "smallest_float < (10::real) powi (- 324 + 1)"
proof -
  have "(2::nat) ^ 1074 \<le> 10 ^ 324" by simp
  then have "(2::real) ^ 1074 \<le> 10 ^ 324"
    by (metis of_nat_le_iff of_nat_numeral of_nat_power)
  then show "(10::real) powi (- 324) \<le> smallest_float"
    by (simp add: smallest_float_def power_int_minus field_simps)
  have "(10::nat) ^ 323 < 2 ^ 1074" by simp
  then have "(10::real) ^ 323 < 2 ^ 1074"
    by (metis of_nat_less_iff of_nat_numeral of_nat_power)
  then show "smallest_float < (10::real) powi (- 324 + 1)"
    by (simp add: smallest_float_def power_int_minus field_simps)
qed

lemma smallest_float_pos: "0 < smallest_float"
  by (simp add: smallest_float_def)

lemma smallest_float_exponent: "\<lfloor>log 10 smallest_float\<rfloor> = - 324"
  using smallest_float_bounds by (rule floor_log10_eq)

text \<open>
  Claim C8. The claim holds for the quotient \<open>count / total\<close>, which is guarded, but
  \<open>benford_for_column\<close> does fail with a division by zero: for the column that holds the
  smallest positive float \<^verbatim>\<open>5e-324\<close> the exponent is \<open>-324\<close>, the power \<^verbatim>\<open>10**-324\<close>
  underflows to \<^verbatim>\<open>0.0\<close>, and \<^verbatim>\<open>value / (10**exponent)\<close> in the extraction of the leading digits
  raises \<^verbatim>\<open>ZeroDivisionError\<close>. The column has no valid leading digit, and instead of nine rows
  with the observed share 0 there is no row at all.
\<close>

theorem benford_for_column_zero_division:
  "0 < smallest_float
   \<and> \<lfloor>log 10 smallest_float\<rfloor> = - 324
   \<and> div_pow10 (Finite smallest_float) (- 324) = Inl (ZeroDivisionError ''float division by zero'')
   \<and> leading_digits [Finite smallest_float] = Inl (ZeroDivisionError ''float division by zero'')
   \<and> benford_for_column [Finite smallest_float] ''Amount''
        = Inl (ZeroDivisionError ''float division by zero'')
   \<and> summarize_benford [(''Amount'', [Finite smallest_float])]
        = Inl (ZeroDivisionError ''float division by zero'')"
proof -
  note pos = smallest_float_pos
  have d: "div_pow10 (Finite smallest_float) (- 324)
      = Inl (ZeroDivisionError ''float division by zero'')"
    by (simp add: div_pow10_def)
  from pos have "leading_digits_loop [] [Finite smallest_float]
      = Inl (ZeroDivisionError ''float division by zero'')"
    by (simp add: smallest_float_exponent d)
  then have l: "leading_digits [Finite smallest_float]
      = Inl (ZeroDivisionError ''float division by zero'')"
    by (simp only: leading_digits_def)
  from l have b: "benford_for_column [Finite smallest_float] ''Amount''
      = Inl (ZeroDivisionError ''float division by zero'')"
    by (simp only: benford_for_column_def sum.case)
  from b have "summarize_benford [(''Amount'', [Finite smallest_float])]
      = Inl (ZeroDivisionError ''float division by zero'')"
    by (simp only: summarize_benford_def detail_loop.simps sum.case)
  with pos smallest_float_exponent d l b show ?thesis by (intro conjI)
qed

subsection \<open>Benford engine: the summary\<close>

lemma detail_loop_Inr:
  "detail_loop acc columns = Inr detail \<Longrightarrow>
   (\<forall>(l, vs) \<in> set columns. leading_digits vs = Inr (digits_of vs))
   \<and> detail = acc @ concat (map (\<lambda>(l, vs). benford_rows (digits_of vs) l) columns)"
proof (induction columns arbitrary: acc)
  case Nil
  then show ?case by simp
next
  case (Cons c columns)
  obtain l vs where c: "c = (l, vs)" by (cases c)
  from Cons.prems c obtain ds where ds: "leading_digits vs = Inr ds"
    and rest: "detail_loop (acc @ benford_rows ds l) columns = Inr detail"
    by (auto simp: benford_for_column_rows split: sum.splits)
  from ds have d: "digits_of vs = ds" by (simp add: digits_of_def)
  from Cons.IH [OF rest] ds d c show ?case by simp
qed

lemma detail_loop_total:
  "\<forall>(l, vs) \<in> set columns. \<exists>ds. leading_digits vs = Inr ds \<Longrightarrow>
   \<exists>detail. detail_loop acc columns = Inr detail"
proof (induction columns arbitrary: acc)
  case Nil
  show ?case by simp
next
  case (Cons c columns)
  obtain l vs where c: "c = (l, vs)" by (cases c)
  from Cons.prems c obtain ds where ds: "leading_digits vs = Inr ds" by auto
  from Cons.prems have "\<forall>(l, vs) \<in> set columns. \<exists>ds. leading_digits vs = Inr ds" by simp
  from Cons.IH [OF this, of "acc @ benford_rows ds l"] ds c show ?case
    by (simp add: benford_for_column_rows)
qed

lemma filter_benford_rows:
  "filter (\<lambda>row. dr_column row = l) (benford_rows ds l') = (if l' = l then benford_rows ds l' else [])"
  by (simp add: benford_rows_def Let_def filter_map comp_def)

lemma filter_detail:
  assumes "distinct (map fst columns)" and "(l, vs) \<in> set columns"
  shows "filter (\<lambda>row. dr_column row = l)
           (concat (map (\<lambda>(l, vs). benford_rows (digits_of vs) l) columns))
         = benford_rows (digits_of vs) l"
  using assms
proof (induction columns)
  case Nil
  then show ?case by simp
next
  case (Cons c columns)
  obtain l' vs' where c: "c = (l', vs')" by (cases c)
  show ?case
  proof (cases "l' = l")
    case True
    with Cons.prems c have same: "vs' = vs" and notin: "l \<notin> fst ` set columns"
      by (auto simp: image_iff)
    have "filter (\<lambda>row. dr_column row = l)
           (concat (map (\<lambda>(l, vs). benford_rows (digits_of vs) l) columns)) = []"
      using notin by (induction columns) (auto simp: filter_benford_rows)
    with True same c show ?thesis by (simp add: filter_benford_rows)
  next
    case False
    with Cons.prems c have "(l, vs) \<in> set columns" "distinct (map fst columns)" by auto
    from Cons.IH [OF this(2,1)] False c show ?thesis by (simp add: filter_benford_rows)
  qed
qed

lemma first_max_fold:
  fixes f :: "'a \<Rightarrow> real"
  shows "\<exists>i < length (x # rest).
      (x # rest) ! i = foldl (\<lambda>best y. if f best < f y then y else best) x rest
      \<and> (\<forall>j < length (x # rest). f ((x # rest) ! j) \<le> f ((x # rest) ! i))
      \<and> (\<forall>j < i. f ((x # rest) ! j) < f ((x # rest) ! i))"
proof (induction rest rule: rev_induct)
  case Nil
  show ?case by simp
next
  case (snoc y rest)
  let ?m = "foldl (\<lambda>best y. if f best < f y then y else best) x rest"
  from snoc.IH obtain i where i: "i < length (x # rest)" "(x # rest) ! i = ?m"
    and le: "\<forall>j < length (x # rest). f ((x # rest) ! j) \<le> f ((x # rest) ! i)"
    and lt: "\<forall>j < i. f ((x # rest) ! j) < f ((x # rest) ! i)"
    by blast
  have nth_old: "(x # rest @ [y]) ! j = (x # rest) ! j" if "j < length (x # rest)" for j
    using that by (metis append_Cons nth_append)
  have nth_new: "(x # rest @ [y]) ! length (x # rest) = y"
    by (metis append_Cons nth_append_length)
  show ?case
  proof (cases "f ?m < f y")
    case True
    have "\<forall>j < length (x # rest @ [y]). f ((x # rest @ [y]) ! j) \<le> f y"
    proof (intro allI impI)
      fix j assume "j < length (x # rest @ [y])"
      then consider "j < length (x # rest)" | "j = length (x # rest)" by fastforce
      then show "f ((x # rest @ [y]) ! j) \<le> f y"
      proof cases
        case 1
        with le i True show ?thesis by (simp only: nth_old) force
      next
        case 2
        then show ?thesis by (simp only: nth_new)
      qed
    qed
    moreover have "\<forall>j < length (x # rest). f ((x # rest @ [y]) ! j) < f y"
    proof (intro allI impI)
      fix j assume j: "j < length (x # rest)"
      with le i True show "f ((x # rest @ [y]) ! j) < f y" by (simp only: nth_old) force
    qed
    ultimately show ?thesis
      using True nth_new by (intro exI [of _ "length (x # rest)"]) simp
  next
    case False
    have "\<forall>j < length (x # rest @ [y]). f ((x # rest @ [y]) ! j) \<le> f ((x # rest) ! i)"
    proof (intro allI impI)
      fix j assume "j < length (x # rest @ [y])"
      then consider "j < length (x # rest)" | "j = length (x # rest)" by fastforce
      then show "f ((x # rest @ [y]) ! j) \<le> f ((x # rest) ! i)"
      proof cases
        case 1
        with le show ?thesis by (simp only: nth_old)
      next
        case 2
        with False i show ?thesis by (simp only: nth_new not_less)
      qed
    qed
    moreover have "\<forall>j < i. f ((x # rest @ [y]) ! j) < f ((x # rest) ! i)"
      using lt i nth_old by (metis less_trans)
    ultimately show ?thesis
      using False i nth_old [OF i(1)] by (intro exI [of _ i]) simp
  qed
qed

lemma benford_rows_spec:
  "benford_rows ds l =
     map (\<lambda>d. \<lparr>dr_column = l, dr_digit = d, dr_count = int (count_list ds d),
                dr_observed = observed_share ds d, dr_expected = log 10 (1 + 1 / of_int d),
                dr_deviation = observed_share ds d - log 10 (1 + 1 / of_int d)\<rparr>) [1..9]"
proof (rule nth_equalityI)
  show "length (benford_rows ds l) = length (map (\<lambda>d. \<lparr>dr_column = l, dr_digit = d,
      dr_count = int (count_list ds d), dr_observed = observed_share ds d,
      dr_expected = log 10 (1 + 1 / of_int d),
      dr_deviation = observed_share ds d - log 10 (1 + 1 / of_int d)\<rparr>) [1..9])"
    by (simp add: benford_rows_length)
next
  fix i assume "i < length (benford_rows ds l)"
  then have i: "i < 9" by (simp add: benford_rows_length)
  then have d: "1 \<le> int i + 1" "int i + 1 \<le> 9" by simp_all
  from i have n: "[1..9] ! i = int i + 1" by (simp add: nth_upto)
  have l: "i < length [1..9]" using i by simp
  have "benford_rows ds l ! i = benford_rows ds l ! nat (int i + 1 - 1)" by simp
  also note benford_rows_nth [OF d, of ds l]
  finally show "benford_rows ds l ! i = map (\<lambda>d. \<lparr>dr_column = l, dr_digit = d,
      dr_count = int (count_list ds d), dr_observed = observed_share ds d,
      dr_expected = log 10 (1 + 1 / of_int d),
      dr_deviation = observed_share ds d - log 10 (1 + 1 / of_int d)\<rparr>) [1..9] ! i"
    unfolding nth_map [OF l] n .
qed

lemma foldl_max_Max:
  fixes xs :: "real list"
  assumes "xs \<noteq> []"
  shows "foldl max (hd xs) (tl xs) = Max (set xs)"
proof -
  from assms obtain y ys where xs: "xs = y # ys" by (cases xs) auto
  have "foldl max y ys = fold max ys y"
    by (simp add: foldl_conv_fold max.commute)
  also have "\<dots> = Max (set (y # ys))" by (rule Max.set_eq_fold [symmetric])
  finally show ?thesis by (simp add: xs)
qed

lemma summary_of_spec:
  assumes "filter (\<lambda>row. dr_column row = l) detail = benford_rows ds l"
  shows "\<exists>s. summary_of detail l = Inr s \<and> sr_column s = l
    \<and> sr_mad s = (\<Sum>d \<in> {1..9}. abs_deviation ds d) / 9
    \<and> sr_max_abs_deviation s = Max (abs_deviation ds ` {1..9})
    \<and> sr_top_deviation_digit s \<in> {1..9}
    \<and> abs_deviation ds (sr_top_deviation_digit s) = Max (abs_deviation ds ` {1..9})
    \<and> (\<forall>d \<in> {1..9}. d < sr_top_deviation_digit s \<longrightarrow>
          abs_deviation ds d < abs_deviation ds (sr_top_deviation_digit s))"
proof -
  let ?g = "\<lambda>d. \<lparr>dr_column = l, dr_digit = d, dr_count = int (count_list ds d),
                dr_observed = observed_share ds d, dr_expected = log 10 (1 + 1 / of_int d),
                dr_deviation = observed_share ds d - log 10 (1 + 1 / of_int d)\<rparr>"
  let ?key = "\<lambda>row. \<bar>dr_deviation row\<bar>"
  let ?rows = "benford_rows ds l"
  have rows: "?rows = map ?g [1..9]" by (rule benford_rows_spec)
  have len: "length ?rows = 9" by (rule benford_rows_length)
  have nth: "?rows ! j = ?g (int j + 1)" if "j < 9" for j
    using that by (simp add: rows nth_upto add.commute)
  have key: "?key (?g d) = abs_deviation ds d" for d
    by (simp add: abs_deviation_def)
  have devs: "map ?key ?rows = map (abs_deviation ds) [1..9]"
    by (simp add: rows comp_def abs_deviation_def)
  have sum: "sum_list (map (abs_deviation ds) [1..9]) = (\<Sum>d \<in> {1..9}. abs_deviation ds d)"
  proof -
    have "sum_list (map (abs_deviation ds) [1..9]) = sum (abs_deviation ds) (set [1..9])"
      by (rule sum_list_distinct_conv_sum_set) simp
    then show ?thesis by simp
  qed
  have mx: "foldl max (hd (map (abs_deviation ds) [1..9])) (tl (map (abs_deviation ds) [1..9]))
      = Max (abs_deviation ds ` {1..9})"
  proof -
    have "map (abs_deviation ds) [1..9] \<noteq> []" by (simp add: upto.simps)
    from foldl_max_Max [OF this] show ?thesis by simp
  qed
  obtain r rest where cons: "?rows = r # rest"
    using len by (cases ?rows) auto
  define m where "m = foldl (\<lambda>best y. if ?key best < ?key y then y else best) r rest"
  from first_max_fold [of r rest ?key] obtain i where
    i: "i < length (r # rest)" and mi: "(r # rest) ! i = m"
    and le: "\<forall>j < length (r # rest). ?key ((r # rest) ! j) \<le> ?key ((r # rest) ! i)"
    and lt: "\<forall>j < i. ?key ((r # rest) ! j) < ?key ((r # rest) ! i)"
    unfolding m_def by blast
  from i cons len have i9: "i < 9" by simp
  have m: "m = ?g (int i + 1)" using mi nth [OF i9] cons by simp
  have top: "dr_digit m = int i + 1" by (simp add: m)
  have le': "abs_deviation ds d \<le> abs_deviation ds (int i + 1)" if "d \<in> {1..9}" for d
  proof -
    from that have j: "nat (d - 1) < 9" and d: "int (nat (d - 1)) + 1 = d" by auto
    from le j cons len have "?key (?rows ! nat (d - 1)) \<le> ?key (?rows ! i)" by simp
    then show ?thesis by (simp only: nth [OF j] nth [OF i9] key d)
  qed
  have lt': "abs_deviation ds d < abs_deviation ds (int i + 1)"
    if "d \<in> {1..9}" "d < int i + 1" for d
  proof -
    from that have j: "nat (d - 1) < i" and d: "int (nat (d - 1)) + 1 = d" by auto
    from j i9 have j9: "nat (d - 1) < 9" by simp
    from lt j cons have "?key (?rows ! nat (d - 1)) < ?key (?rows ! i)" by simp
    then show ?thesis by (simp only: nth [OF j9] nth [OF i9] key d)
  qed
  have in19: "int i + 1 \<in> {1..9}" using i9 by simp
  have Max: "abs_deviation ds (int i + 1) = Max (abs_deviation ds ` {1..9})"
  proof (rule sym, rule Max_eqI)
    show "finite (abs_deviation ds ` {1..9})" by simp
    show "abs_deviation ds (int i + 1) \<in> abs_deviation ds ` {1..9}" using in19 by (rule imageI)
    show "y \<le> abs_deviation ds (int i + 1)" if "y \<in> abs_deviation ds ` {1..9}" for y
      using that le' by auto
  qed
  have pm: "py_max_key ?key ?rows = Inr m"
    by (simp add: py_max_key_def cons m_def)
  have ne: "map (abs_deviation ds) [1..9] \<noteq> []" by (simp add: upto.simps)
  have l9: "length (map (abs_deviation ds) [1..9]) = 9" by simp
  have "summary_of detail l =
      Inr \<lparr>sr_column = l, sr_total_values = sum_list (map dr_count ?rows),
           sr_mad = (\<Sum>d \<in> {1..9}. abs_deviation ds d) / 9,
           sr_max_abs_deviation = Max (abs_deviation ds ` {1..9}),
           sr_top_deviation_digit = int i + 1\<rparr>"
    unfolding summary_of_def Let_def assms pm devs
    using ne by (simp only: sum mx l9 top if_True sum.case) simp
  with in19 Max lt' show ?thesis by auto
qed

lemma summary_loop_Inr:
  "summary_loop detail acc labels = Inr summary \<Longrightarrow>
   \<exists>rws. summary = acc @ rws \<and> list_all2 (\<lambda>l s. summary_of detail l = Inr s) labels rws"
proof (induction labels arbitrary: acc)
  case Nil
  then show ?case by simp
next
  case (Cons l labels)
  from Cons.prems obtain s where s: "summary_of detail l = Inr s"
    and rest: "summary_loop detail (acc @ [s]) labels = Inr summary"
    by (auto split: sum.splits)
  from Cons.IH [OF rest] obtain rws where
    "summary = (acc @ [s]) @ rws" "list_all2 (\<lambda>l s. summary_of detail l = Inr s) labels rws"
    by blast
  with s have "summary = acc @ (s # rws)"
    "list_all2 (\<lambda>l s. summary_of detail l = Inr s) (l # labels) (s # rws)"
    by simp_all
  then show ?case by blast
qed

lemma summary_loop_total:
  "\<forall>l \<in> set labels. \<exists>s. summary_of detail l = Inr s \<Longrightarrow>
   \<exists>summary. summary_loop detail acc labels = Inr summary"
proof (induction labels arbitrary: acc)
  case Nil
  show ?case by simp
next
  case (Cons l labels)
  from Cons.prems obtain s where s: "summary_of detail l = Inr s" by auto
  from Cons.prems have "\<forall>l \<in> set labels. \<exists>s. summary_of detail l = Inr s" by simp
  from Cons.IH [OF this, of "acc @ [s]"] s show ?case by simp
qed

lemma summarize_benford_total:
  assumes "distinct (map fst columns)"
    and "\<forall>(l, vs) \<in> set columns. \<exists>ds. leading_digits vs = Inr ds"
  shows "\<exists>summary detail. summarize_benford columns = Inr (summary, detail)"
proof -
  from detail_loop_total [OF assms(2), of "[]"] obtain detail where
    d: "detail_loop [] columns = Inr detail" by blast
  from detail_loop_Inr [OF d] have
    detail: "detail = concat (map (\<lambda>(l, vs). benford_rows (digits_of vs) l) columns)" by simp
  have "\<forall>l \<in> set (map fst columns). \<exists>s. summary_of detail l = Inr s"
  proof
    fix l assume "l \<in> set (map fst columns)"
    then obtain vs where "(l, vs) \<in> set columns" by auto
    from filter_detail [OF assms(1) this]
    have "filter (\<lambda>row. dr_column row = l) detail = benford_rows (digits_of vs) l"
      by (simp only: detail)
    from summary_of_spec [OF this] show "\<exists>s. summary_of detail l = Inr s" by blast
  qed
  from summary_loop_total [OF this, of "[]"] obtain summary where
    "summary_loop detail [] (map fst columns) = Inr summary" by blast
  with d show ?thesis by (simp add: summarize_benford_def)
qed

text \<open>
  Claim C1. When the analysis of the columns returns, the summary has one row for each
  column, and the rows are ordered by descending \<open>mad\<close>. The row of a column with the digit
  population \<open>digits\<close> has: \<open>mad\<close> the mean over the digits 1..9 of
  \<open>|observed(d) - expected(d)|\<close>; \<open>max_abs_deviation\<close> the maximum of these nine values;
  \<open>top_deviation_digit\<close> a digit in 1..9 that attains the maximum, with every lower digit
  strictly below the maximum.
\<close>

theorem summarize_benford_summary:
  assumes "distinct (map fst columns)"
    and "summarize_benford columns = Inr (summary, detail)"
  shows "sorted_wrt (\<lambda>a b. sr_mad b \<le> sr_mad a) summary
    \<and> distinct (map sr_column summary)
    \<and> set (map sr_column summary) = set (map fst columns)
    \<and> (\<forall>s \<in> set summary. \<exists>values digits.
          (sr_column s, values) \<in> set columns \<and> leading_digits values = Inr digits
          \<and> sr_mad s = (\<Sum>d \<in> {1..9}. abs_deviation digits d) / 9
          \<and> sr_max_abs_deviation s = Max (abs_deviation digits ` {1..9})
          \<and> sr_top_deviation_digit s \<in> {1..9}
          \<and> abs_deviation digits (sr_top_deviation_digit s) = Max (abs_deviation digits ` {1..9})
          \<and> (\<forall>d \<in> {1..9}. d < sr_top_deviation_digit s \<longrightarrow>
                abs_deviation digits d < abs_deviation digits (sr_top_deviation_digit s)))"
proof -
  from assms(2) obtain summary0 where
    d: "detail_loop [] columns = Inr detail"
    and s0: "summary_loop detail [] (map fst columns) = Inr summary0"
    and srt: "summary = sort_key (\<lambda>row. - sr_mad row) summary0"
    by (auto simp: summarize_benford_def split: sum.splits)
  from detail_loop_Inr [OF d] have
    ok: "\<forall>(l, vs) \<in> set columns. leading_digits vs = Inr (digits_of vs)"
    and detail: "detail = concat (map (\<lambda>(l, vs). benford_rows (digits_of vs) l) columns)"
    by simp_all
  from summary_loop_Inr [OF s0] have
    all2: "list_all2 (\<lambda>l s. summary_of detail l = Inr s) (map fst columns) summary0"
    by simp
  have row: "\<exists>values digits.
          (sr_column s, values) \<in> set columns \<and> leading_digits values = Inr digits
          \<and> sr_mad s = (\<Sum>d \<in> {1..9}. abs_deviation digits d) / 9
          \<and> sr_max_abs_deviation s = Max (abs_deviation digits ` {1..9})
          \<and> sr_top_deviation_digit s \<in> {1..9}
          \<and> abs_deviation digits (sr_top_deviation_digit s) = Max (abs_deviation digits ` {1..9})
          \<and> (\<forall>d \<in> {1..9}. d < sr_top_deviation_digit s \<longrightarrow>
                abs_deviation digits d < abs_deviation digits (sr_top_deviation_digit s))"
    if "(l, vs) \<in> set columns" "summary_of detail l = Inr s" for l vs s
  proof -
    from filter_detail [OF assms(1) that(1)]
    have "filter (\<lambda>row. dr_column row = l) detail = benford_rows (digits_of vs) l"
      by (simp only: detail)
    from summary_of_spec [OF this] that(2) have
      "sr_column s = l
       \<and> sr_mad s = (\<Sum>d \<in> {1..9}. abs_deviation (digits_of vs) d) / 9
       \<and> sr_max_abs_deviation s = Max (abs_deviation (digits_of vs) ` {1..9})
       \<and> sr_top_deviation_digit s \<in> {1..9}
       \<and> abs_deviation (digits_of vs) (sr_top_deviation_digit s)
           = Max (abs_deviation (digits_of vs) ` {1..9})
       \<and> (\<forall>d \<in> {1..9}. d < sr_top_deviation_digit s \<longrightarrow>
             abs_deviation (digits_of vs) d < abs_deviation (digits_of vs) (sr_top_deviation_digit s))"
      by auto
    moreover from ok that(1) have "leading_digits vs = Inr (digits_of vs)" by auto
    ultimately show ?thesis using that(1) by blast
  qed
  have name: "sr_column s = l" if "(l, vs) \<in> set columns" "summary_of detail l = Inr s" for l vs s
  proof -
    from filter_detail [OF assms(1) that(1)]
    have "filter (\<lambda>row. dr_column row = l) detail = benford_rows (digits_of vs) l"
      by (simp only: detail)
    from summary_of_spec [OF this] that(2) show ?thesis by auto
  qed
  have len: "length summary0 = length columns"
    using all2 by (auto dest: list_all2_lengthD)
  have names: "map sr_column summary0 = map fst columns"
  proof (rule nth_equalityI)
    show "length (map sr_column summary0) = length (map fst columns)" using len by simp
  next
    fix i assume "i < length (map sr_column summary0)"
    then have i: "i < length columns" using len by simp
    then have m: "(fst (columns ! i), snd (columns ! i)) \<in> set columns" by simp
    from all2 i have "summary_of detail (fst (columns ! i)) = Inr (summary0 ! i)"
      by (auto simp: list_all2_conv_all_nth)
    from name [OF m this] i len show "map sr_column summary0 ! i = map fst columns ! i"
      by simp
  qed
  have rows0: "\<forall>s \<in> set summary0. \<exists>l vs. (l, vs) \<in> set columns \<and> summary_of detail l = Inr s"
  proof
    fix s assume "s \<in> set summary0"
    then obtain i where i: "i < length summary0" "summary0 ! i = s"
      by (auto simp: in_set_conv_nth)
    with all2 len have "summary_of detail (fst (columns ! i)) = Inr s"
      by (auto simp: list_all2_conv_all_nth)
    moreover from i len have "(fst (columns ! i), snd (columns ! i)) \<in> set columns" by simp
    ultimately show "\<exists>l vs. (l, vs) \<in> set columns \<and> summary_of detail l = Inr s" by blast
  qed
  have set: "set summary = set summary0" by (simp add: srt)
  have sorted: "sorted_wrt (\<lambda>a b. sr_mad b \<le> sr_mad a) summary"
  proof -
    have "sorted (map (\<lambda>row. - sr_mad row) summary)" unfolding srt by (rule sorted_sort_key)
    then show ?thesis by (simp add: sorted_wrt_map)
  qed
  have d0: "distinct (map sr_column summary0)" using names assms(1) by simp
  then have "distinct summary0" "inj_on sr_column (set summary0)"
    by (simp_all add: distinct_map)
  then have dist: "distinct (map sr_column summary)"
    by (simp add: distinct_map srt)
  have names': "set (map sr_column summary) = set (map fst columns)"
    using names set by (metis set_map)
  from sorted dist names' rows0 row set show ?thesis by blast
qed

lemma leading_digit_of_eq:
  assumes "of_int d * 10 powi e \<le> \<bar>x\<bar>" and "\<bar>x\<bar> < (of_int d + 1) * 10 powi e"
    and "1 \<le> d" and "d \<le> 9"
  shows "leading_digit_of x = d"
proof -
  have ppos: "0 < (10::real) powi e" by simp
  have p: "(10::real) powr of_int k = 10 powi k" for k
    by (rule powr_real_of_int') simp_all
  from assms(3) have "1 * 10 powi e \<le> of_int d * (10::real) powi e"
    by (intro mult_right_mono) simp_all
  then have "10 powi e \<le> of_int d * (10::real) powi e" by simp
  with assms(1) have lo: "10 powi e \<le> \<bar>x\<bar>" by linarith
  with ppos have pos: "0 < \<bar>x\<bar>" by linarith
  from assms(4) have "(of_int d + 1) * 10 powi e \<le> 10 * (10::real) powi e"
    by (intro mult_right_mono) simp_all
  with assms(2) have "\<bar>x\<bar> < 10 * (10::real) powi e" by linarith
  then have hi: "\<bar>x\<bar> < 10 powi (e + 1)" by (simp add: power_int_add)
  from lo pos have "of_int e \<le> log 10 \<bar>x\<bar>" by (simp add: le_log_iff p)
  moreover from hi pos have "log 10 \<bar>x\<bar> < of_int e + 1"
    using log_less_iff [of 10 "\<bar>x\<bar>" "of_int (e + 1)"] by (simp add: p del: of_int_add)
  ultimately have fl: "\<lfloor>log 10 \<bar>x\<bar>\<rfloor> = e" by (intro floor_unique) simp_all
  from assms(1) ppos have "of_int d \<le> \<bar>x\<bar> / 10 powi e" by (simp add: field_simps)
  moreover from assms(2) ppos have "\<bar>x\<bar> / 10 powi e < of_int d + 1" by (simp add: field_simps)
  ultimately have "\<lfloor>\<bar>x\<bar> / 10 powi e\<rfloor> = d" by (intro floor_unique) simp_all
  with fl show ?thesis by (simp add: leading_digit_of_def)
qed

lemma in_pow10_range_between: "1 \<le> \<bar>x\<bar> \<Longrightarrow> \<bar>x\<bar> < 1000 \<Longrightarrow> in_pow10_range x"
proof -
  assume a: "1 \<le> \<bar>x\<bar>" "\<bar>x\<bar> < 1000"
  have "(10::real) powi (- 323) \<le> 10 powi 0" by (rule power_int_increasing) simp_all
  moreover have "(10::real) powi 3 \<le> 10 powi 309" by (rule power_int_increasing) simp_all
  ultimately show ?thesis using a by (simp add: in_pow10_range_def)
qed

lemma leading_digits_hundreds:
  "leading_digits [Finite 100, Finite 200, Finite 300, Finite 0] = Inr [1, 2, 3]"
proof -
  have "leading_digit_of 100 = 1" by (rule leading_digit_of_eq [where e = 2]) simp_all
  moreover have "leading_digit_of 200 = 2" by (rule leading_digit_of_eq [where e = 2]) simp_all
  moreover have "leading_digit_of 300 = 3" by (rule leading_digit_of_eq [where e = 2]) simp_all
  moreover have "\<forall>x \<in> set [100, 200, 300, 0]. in_pow10_range x"
    by (simp add: in_pow10_range_between in_pow10_range_def)
  ultimately show ?thesis
    using leading_digits_finite [of "[100, 200, 300, 0]"] by (simp add: retained_digits_def)
qed

text \<open>The summary of two columns: the rows are ordered, there is one for each column, and
  the \<open>mad\<close> of column A is the mean deviation of its digit population 1, 2, 3.\<close>

theorem summarize_benford_summary_witness:
  "\<exists>summary detail.
     summarize_benford [(''A'', [Finite 100, Finite 200, Finite 300, Finite 0]), (''B'', [Finite 0])]
       = Inr (summary, detail)
     \<and> sorted_wrt (\<lambda>a b. sr_mad b \<le> sr_mad a) summary
     \<and> set (map sr_column summary) = {''A'', ''B''}
     \<and> (\<forall>s \<in> set summary. sr_column s = ''A'' \<longrightarrow>
           sr_mad s = (\<Sum>d \<in> {1..9}. abs_deviation [1, 2, 3] d) / 9)"
proof -
  let ?cols = "[(''A'', [Finite 100, Finite 200, Finite 300, Finite 0]), (''B'', [Finite 0])]"
  have dist: "distinct (map fst ?cols)" by simp
  have zero: "leading_digits [Finite 0] = Inr []"
    by (simp add: leading_digits_def)
  have ok: "\<forall>(l, vs) \<in> set ?cols. \<exists>ds. leading_digits vs = Inr ds"
    by (simp add: leading_digits_hundreds zero)
  from summarize_benford_total [OF dist ok] obtain summary detail where
    sb: "summarize_benford ?cols = Inr (summary, detail)" by blast
  from summarize_benford_summary [OF dist sb] have
    sorted: "sorted_wrt (\<lambda>a b. sr_mad b \<le> sr_mad a) summary"
    and names: "set (map sr_column summary) = set (map fst ?cols)"
    and rows: "\<forall>s \<in> set summary. \<exists>values digits.
          (sr_column s, values) \<in> set ?cols \<and> leading_digits values = Inr digits
          \<and> sr_mad s = (\<Sum>d \<in> {1..9}. abs_deviation digits d) / 9"
    by blast+
  have "sr_mad s = (\<Sum>d \<in> {1..9}. abs_deviation [1, 2, 3] d) / 9"
    if "s \<in> set summary" "sr_column s = ''A''" for s
  proof -
    from rows that(1) obtain vals digits where
      v: "(sr_column s, vals) \<in> set ?cols" "leading_digits vals = Inr digits"
      and mad: "sr_mad s = (\<Sum>d \<in> {1..9}. abs_deviation digits d) / 9"
      by blast
    from v(1) that(2) have "vals = [Finite 100, Finite 200, Finite 300, Finite 0]" by simp
    with v(2) have "digits = [1, 2, 3]" by (simp add: leading_digits_hundreds)
    with mad show ?thesis by simp
  qed
  with sb sorted names show ?thesis by (intro exI [of _ summary] exI [of _ detail]) auto
qed

subsection \<open>A worksheet without data rows\<close>






end
